theory Spec2Isabelle
  imports Complex_Main "HOL-Library.AList"
begin

section \<open>Python values shared by the modules\<close>

text \<open>
  The exceptions that can leave the modelled functions: \<open>next(iter(d))\<close> on an empty
  dict, a list index out of range, \<open>range\<close> with step 0, and any failure of the
  external embedding provider or of the Chroma backend.
\<close>

datatype py_error = StopIteration | IndexError | ValueError | ProviderError

text \<open>
  A Python \<open>str\<close> is the list of its code points; \<open>char\<close> covers the code points
  below 256. \<open>str.isspace\<close> holds on that range for TAB, LF, VT, FF, CR, the four
  separators FS, GS, RS, US, the space, NEL and the no-break space.
\<close>

definition py_isspace :: "char \<Rightarrow> bool" where
  "py_isspace c =
     ((of_char c :: nat) \<in> {9, 10, 11, 12, 13, 28, 29, 30, 31, 32, 133, 160})"

definition py_strip :: "string \<Rightarrow> string" where
  "py_strip s = rev (dropWhile py_isspace (rev (dropWhile py_isspace s)))"

text \<open>The guard \<open>not text or not text.strip()\<close> that opens most entry points.\<close>

definition blank :: "string \<Rightarrow> bool" where
  "blank s = (s = [] \<or> py_strip s = [])"

text \<open>
  The slice \<open>xs[:k]\<close> for a Python integer \<open>k\<close>: the first \<open>k\<close> elements when
  \<open>k\<close> is not negative, all but the last \<open>-k\<close> elements otherwise.
\<close>

definition slice_to :: "int \<Rightarrow> 'a list \<Rightarrow> 'a list" where
  "slice_to k xs =
     (if 0 \<le> k then take (nat k) xs else take (length xs - nat (- k)) xs)"

text \<open>Scalar metadata values: strings and integers.\<close>

datatype mval = MStr string | MInt int

text \<open>
  A langchain \<open>Document\<close> as a value (its text and its metadata dict), and as an
  object held in a result list: \<open>obj_id\<close> is what \<open>id(doc)\<close> returns.
\<close>

record document =
  page_content :: string
  metadata :: "string \<rightharpoonup> mval"

record document_obj = document +
  obj_id :: nat

type_synonym score = real

type_synonym filter_dict = "(string \<times> mval) list option"

section \<open>vector\_db.py\<close>

text \<open>
  The Chroma collection is external: \<open>similarity_search_with_score\<close> is a parameter,
  which returns scored documents or raises. \<open>if filter_dict:\<close> is false for
  \<open>None\<close> and for the empty dict, and then the call carries no filter.
\<close>

type_synonym vector_store =
  "string \<Rightarrow> int \<Rightarrow> filter_dict \<Rightarrow> py_error + (document_obj \<times> score) list"

definition truthy :: "filter_dict \<Rightarrow> bool" where
  "truthy f = (case f of None \<Rightarrow> False | Some d \<Rightarrow> d \<noteq> [])"

definition search_with_scores ::
  "vector_store \<Rightarrow> string \<Rightarrow> int \<Rightarrow> filter_dict \<Rightarrow> (document_obj \<times> score) list" where
  "search_with_scores vector_store query k filter_dict =
     (if blank query then []
      else
        (case (if truthy filter_dict then vector_store query k filter_dict
               else vector_store query k None) of
           Inr results \<Rightarrow> results
         | Inl e \<Rightarrow> []))"

section \<open>retrieval.py\<close>

text \<open>
  \<open>RetrievalSystem\<close> holds the vector database it was constructed with; the functions
  below take that object's \<open>search_with_scores\<close> method as \<open>vector_db\<close>.
\<close>

type_synonym vector_db =
  "string \<Rightarrow> int \<Rightarrow> filter_dict \<Rightarrow> (document_obj \<times> score) list"

definition semantic_search ::
  "vector_db \<Rightarrow> string \<Rightarrow> int \<Rightarrow> score \<Rightarrow> filter_dict \<Rightarrow> document_obj list" where
  "semantic_search vector_db query k min_score filter_dict =
     (if blank query then []
      else
        (let results_with_scores = vector_db query (k * 2) filter_dict;
             filtered_results =
               slice_to k
                 (map fst (filter (\<lambda>(doc, score). score \<ge> min_score) results_with_scores))
         in filtered_results))"

text \<open>
  \<open>_keyword_search\<close> first computes \<open>re.findall(r'\b\w+\b', query.lower())\<close>; the
  regular-expression library is external, so the whole expression is the parameter
  \<open>extract_keywords\<close>.
\<close>

definition keyword_search ::
  "(string \<Rightarrow> string list) \<Rightarrow> vector_db \<Rightarrow> string \<Rightarrow> filter_dict \<Rightarrow> document_obj list" where
  "keyword_search extract_keywords vector_db query filter_dict =
     (let keywords = extract_keywords query
      in semantic_search vector_db query 10 0 filter_dict)"

text \<open>\<open>doc_scores.get(doc_id, 0)\<close>.\<close>

definition score_get :: "(nat \<rightharpoonup> score) \<Rightarrow> nat \<Rightarrow> score" where
  "score_get doc_scores doc_id = (case doc_scores doc_id of Some s \<Rightarrow> s | None \<Rightarrow> 0)"

text \<open>
  The bodies of the two scoring loops of \<open>_merge_results\<close>, one step per element of
  \<open>enumerate(results)\<close>; \<open>n\<close> is \<open>len(results)\<close>. Scores are exact reals here, the
  rounding of Python floats is not modelled.
\<close>

definition semantic_step ::
  "nat \<Rightarrow> score \<Rightarrow> nat \<times> document_obj \<Rightarrow> (nat \<rightharpoonup> score) \<Rightarrow> (nat \<rightharpoonup> score)" where
  "semantic_step n semantic_weight p doc_scores =
     (let idx = fst p; doc_id = obj_id (snd p);
          scores1 = doc_scores(doc_id \<mapsto>
            score_get doc_scores doc_id + semantic_weight * (1 - real idx / real n));
          scores2 = scores1(doc_id \<mapsto> score_get scores1 doc_id + semantic_weight)
      in scores2)"

definition keyword_step ::
  "nat \<Rightarrow> score \<Rightarrow> nat \<times> document_obj \<Rightarrow> (nat \<rightharpoonup> score) \<Rightarrow> (nat \<rightharpoonup> score)" where
  "keyword_step n keyword_weight p doc_scores =
     (let idx = fst p; doc_id = obj_id (snd p)
      in doc_scores(doc_id \<mapsto>
           score_get doc_scores doc_id + keyword_weight * (1 - real idx / real n)))"

definition doc_scores ::
  "document_obj list \<Rightarrow> document_obj list \<Rightarrow> score \<Rightarrow> score \<Rightarrow> (nat \<rightharpoonup> score)" where
  "doc_scores semantic_results keyword_results semantic_weight keyword_weight =
     fold (keyword_step (length keyword_results) keyword_weight)
       (enumerate 0 keyword_results)
       (fold (semantic_step (length semantic_results) semantic_weight)
          (enumerate 0 semantic_results) Map.empty)"

text \<open>
  \<open>doc_map\<close> is a dict filled in list order: a new key goes to the end, a key already
  present keeps its place and takes the new value, which is what \<open>AList.update\<close> does.
\<close>

definition doc_map :: "document_obj list \<Rightarrow> (nat \<times> document_obj) list" where
  "doc_map docs = fold (\<lambda>doc m. AList.update (obj_id doc) doc m) docs []"

text \<open>
  \<open>sorted(items, key=..., reverse=True)\<close>: the list is reversed, sorted stably in
  ascending key order, and reversed again.
\<close>

definition sorted_reverse :: "('a \<Rightarrow> score) \<Rightarrow> 'a list \<Rightarrow> 'a list" where
  "sorted_reverse key xs = rev (sort_key key (rev xs))"

definition merge_results ::
  "document_obj list \<Rightarrow> document_obj list \<Rightarrow> score \<Rightarrow> score \<Rightarrow> document_obj list" where
  "merge_results semantic_results keyword_results semantic_weight keyword_weight =
     (let scores = doc_scores semantic_results keyword_results semantic_weight keyword_weight;
          sorted_docs =
            sorted_reverse (\<lambda>x. score_get scores (fst x))
              (doc_map (semantic_results @ keyword_results))
      in map snd sorted_docs)"

definition hybrid_search ::
  "(string \<Rightarrow> string list) \<Rightarrow> vector_db \<Rightarrow> string \<Rightarrow> int \<Rightarrow> score \<Rightarrow> score \<Rightarrow> filter_dict
     \<Rightarrow> document_obj list" where
  "hybrid_search extract_keywords vector_db query k semantic_weight keyword_weight filter_dict =
     (let semantic_results = semantic_search vector_db query (k * 2) 0 filter_dict;
          keyword_results = keyword_search extract_keywords vector_db query filter_dict;
          combined =
            merge_results semantic_results keyword_results semantic_weight keyword_weight
      in slice_to k combined)"

text \<open>\<open>doc.metadata.get("source", "Unknown")\<close>.\<close>

definition source_of :: "'a document_scheme \<Rightarrow> mval" where
  "source_of doc =
     (case metadata doc ''source'' of Some v \<Rightarrow> v | None \<Rightarrow> MStr ''Unknown'')"

text \<open>
  The closing loop of \<open>retrieve_relevant_regulations\<close>, with \<open>seen\<close> the set
  \<open>seen_sources\<close>; the result is the list \<open>regulations\<close> of the elements appended from
  here on.
\<close>

fun collect_regulations :: "mval set \<Rightarrow> document_obj list \<Rightarrow> (mval \<times> string) list" where
  "collect_regulations seen [] = []"
| "collect_regulations seen (doc # results) =
     (let source = source_of doc
      in if source \<in> seen then collect_regulations seen results
         else (source, page_content doc) # collect_regulations (insert source seen) results)"

definition search_results ::
  "(string \<Rightarrow> string list) \<Rightarrow> vector_db \<Rightarrow> string \<Rightarrow> int \<Rightarrow> bool \<Rightarrow> document_obj list" where
  "search_results extract_keywords vector_db user_document k use_hybrid =
     (let query = (if length user_document > 500 then take 500 user_document
                   else user_document)
      in if use_hybrid then hybrid_search extract_keywords vector_db query k 0.7 0.3 None
         else semantic_search vector_db query k 0 None)"

definition retrieve_relevant_regulations ::
  "(string \<Rightarrow> string list) \<Rightarrow> vector_db \<Rightarrow> string \<Rightarrow> int \<Rightarrow> bool \<Rightarrow> (mval \<times> string) list" where
  "retrieve_relevant_regulations extract_keywords vector_db user_document k use_hybrid =
     (if blank user_document then []
      else collect_regulations {}
             (search_results extract_keywords vector_db user_document k use_hybrid))"

section \<open>document\_processor.py\<close>

text \<open>
  The metadata dict of a chunk: the generated entries, then \<open>doc_metadata.update(metadata)\<close>
  when \<open>metadata\<close> is truthy. Updating with an empty dict changes nothing, so \<open>None\<close>
  is the only case set apart.
\<close>

definition update_metadata ::
  "(string \<rightharpoonup> mval) \<Rightarrow> (string \<rightharpoonup> mval) option \<Rightarrow> (string \<rightharpoonup> mval)" where
  "update_metadata doc_metadata custom =
     (case custom of None \<Rightarrow> doc_metadata | Some m \<Rightarrow> doc_metadata ++ m)"

text \<open>
  \<open>RecursiveCharacterTextSplitter.split_text\<close> is langchain's and is the parameter
  \<open>split_text\<close>.
\<close>

definition process_text ::
  "(string \<Rightarrow> string list) \<Rightarrow> string \<Rightarrow> string \<Rightarrow> (string \<rightharpoonup> mval) option
     \<Rightarrow> document list" where
  "process_text split_text text source_label custom =
     (if blank text then []
      else
        (let chunks = split_text text
         in map (\<lambda>(idx, chunk_text).
                  \<lparr>page_content = chunk_text,
                   metadata = update_metadata
                     [''source'' \<mapsto> MStr source_label,
                      ''chunk_index'' \<mapsto> MInt (int idx),
                      ''total_chunks'' \<mapsto> MInt (int (length chunks))] custom\<rparr>)
              (enumerate 0 chunks)))"

text \<open>
  \<open>process_file\<close> reads the file through \<open>extract_text_from_path\<close> (the parameter
  \<open>extract_text\<close>, which returns the text or raises) and names the source after
  \<open>os.path.basename\<close> (the parameter \<open>basename\<close>) when no label is given.
\<close>

definition process_file ::
  "(string \<Rightarrow> py_error + string) \<Rightarrow> (string \<Rightarrow> string) \<Rightarrow> (string \<Rightarrow> string list)
     \<Rightarrow> string \<Rightarrow> string option \<Rightarrow> (string \<rightharpoonup> mval) option \<Rightarrow> document list" where
  "process_file extract_text basename split_text file_path source_label custom =
     (case extract_text file_path of
        Inl e \<Rightarrow> []
      | Inr text \<Rightarrow>
          if blank text then []
          else
            (let label = (case source_label of None \<Rightarrow> basename file_path | Some l \<Rightarrow> l);
                 chunks = split_text text
             in map (\<lambda>(idx, chunk_text).
                      \<lparr>page_content = chunk_text,
                       metadata = update_metadata
                         [''source'' \<mapsto> MStr label,
                          ''source_file'' \<mapsto> MStr file_path,
                          ''chunk_index'' \<mapsto> MInt (int idx),
                          ''total_chunks'' \<mapsto> MInt (int (length chunks))] custom\<rparr>)
                  (enumerate 0 chunks)))"

section \<open>embeddings.py\<close>

type_synonym vec = "real list"

text \<open>\<open>[0.0] * 768\<close>.\<close>

definition zero_vector :: vec where
  "zero_vector = replicate 768 0"

text \<open>
  The embedding provider (\<open>GoogleGenerativeAIEmbeddings\<close>) is external and has a state
  of its own, of type \<open>'p\<close>: each call returns vectors or raises, and leaves the provider
  in a new state.
\<close>

record 'p provider =
  embed_query :: "'p \<Rightarrow> string \<Rightarrow> (py_error + vec) \<times> 'p"
  embed_documents :: "'p \<Rightarrow> string list \<Rightarrow> (py_error + vec list) \<times> 'p"

record 'p embedding_generator =
  embeddings :: 'p
  eg_embedding_cache :: "string \<rightharpoonup> vec"

definition generate_embedding ::
  "'p provider \<Rightarrow> 'p embedding_generator \<Rightarrow> string \<Rightarrow> bool
     \<Rightarrow> vec \<times> 'p embedding_generator" where
  "generate_embedding api gen text use_cache =
     (if blank text then (zero_vector, gen)
      else
        (case (if use_cache then eg_embedding_cache gen text else None) of
           Some embedding \<Rightarrow> (embedding, gen)
         | None \<Rightarrow>
             (case embed_query api (embeddings gen) text of
                (Inr embedding, p) \<Rightarrow>
                  (embedding,
                   gen\<lparr>embeddings := p,
                       eg_embedding_cache :=
                         (if use_cache then (eg_embedding_cache gen)(text \<mapsto> embedding)
                          else eg_embedding_cache gen)\<rparr>)
              | (Inl e, p) \<Rightarrow> (zero_vector, gen\<lparr>embeddings := p\<rparr>))))"

text \<open>
  The first inner loop of \<open>generate_embeddings_batch\<close>, over \<open>enumerate(batch)\<close>: the
  lists \<open>cached\<close>, \<open>uncached\<close> and \<open>uncached_indices\<close>.
\<close>

fun split_cached ::
  "bool \<Rightarrow> (string \<rightharpoonup> vec) \<Rightarrow> (nat \<times> string) list \<Rightarrow> vec list \<times> string list \<times> nat list" where
  "split_cached use_cache cache [] = ([], [], [])"
| "split_cached use_cache cache ((idx, text) # rest) =
     (case split_cached use_cache cache rest of
        (cached, uncached, uncached_indices) \<Rightarrow>
          (case (if use_cache then cache text else None) of
             Some embedding \<Rightarrow> (embedding # cached, uncached, uncached_indices)
           | None \<Rightarrow> (cached, text # uncached, idx # uncached_indices)))"

text \<open>
  The second inner loop, over \<open>range(len(batch))\<close>: it fills \<open>batch_results\<close> from left
  to right, and a read beyond the end of \<open>batch_embeddings\<close> or of \<open>cached\<close> raises
  \<open>IndexError\<close>.
\<close>

fun reconstruct ::
  "nat list \<Rightarrow> vec list \<Rightarrow> vec list \<Rightarrow> nat list \<Rightarrow> nat \<Rightarrow> nat \<Rightarrow> py_error + vec list" where
  "reconstruct uncached_indices batch_embeddings cached [] embed_idx cache_idx = Inr []"
| "reconstruct uncached_indices batch_embeddings cached (idx # idxs) embed_idx cache_idx =
     (if idx \<in> set uncached_indices then
        (if embed_idx < length batch_embeddings then
           (case reconstruct uncached_indices batch_embeddings cached idxs
                   (Suc embed_idx) cache_idx of
              Inl e \<Rightarrow> Inl e
            | Inr r \<Rightarrow> Inr (batch_embeddings ! embed_idx # r))
         else Inl IndexError)
      else
        (if cache_idx < length cached then
           (case reconstruct uncached_indices batch_embeddings cached idxs
                   embed_idx (Suc cache_idx) of
              Inl e \<Rightarrow> Inl e
            | Inr r \<Rightarrow> Inr (cached ! cache_idx # r))
         else Inl IndexError))"

text \<open>
  One pass of the outer loop on one sub-batch: the provider is called only when some
  text is not cached; a successful answer is cached pair by pair (\<open>zip\<close>), a failed
  call gives \<open>[[0.0] * 768] * len(uncached)\<close>.
\<close>

definition process_batch ::
  "'p provider \<Rightarrow> bool \<Rightarrow> 'p embedding_generator \<Rightarrow> string list
     \<Rightarrow> py_error + (vec list \<times> 'p embedding_generator)" where
  "process_batch api use_cache gen batch =
     (case split_cached use_cache (eg_embedding_cache gen) (enumerate 0 batch) of
        (cached, uncached, uncached_indices) \<Rightarrow>
          (case (if uncached \<noteq> [] then
                   (case embed_documents api (embeddings gen) uncached of
                      (Inr batch_embeddings, p) \<Rightarrow>
                        (batch_embeddings,
                         gen\<lparr>embeddings := p,
                             eg_embedding_cache :=
                               (if use_cache then
                                  fold (\<lambda>(text, embedding) c. c(text \<mapsto> embedding))
                                    (zip uncached batch_embeddings) (eg_embedding_cache gen)
                                else eg_embedding_cache gen)\<rparr>)
                    | (Inl e, p) \<Rightarrow>
                        (replicate (length uncached) zero_vector, gen\<lparr>embeddings := p\<rparr>))
                 else ([], gen)) of
             (batch_embeddings, gen') \<Rightarrow>
               (case reconstruct uncached_indices batch_embeddings cached
                       [0..<length batch] 0 0 of
                  Inl e \<Rightarrow> Inl e
                | Inr batch_results \<Rightarrow> Inr (batch_results, gen'))))"

text \<open>
  The outer loop \<open>for i in range(0, len(texts), batch_size)\<close> for a positive step: each
  pass takes the next \<open>batch_size\<close> texts and extends \<open>results\<close>.
\<close>

function embed_batches ::
  "'p provider \<Rightarrow> bool \<Rightarrow> nat \<Rightarrow> 'p embedding_generator \<Rightarrow> string list
     \<Rightarrow> py_error + (vec list \<times> 'p embedding_generator)" where
  "embed_batches api use_cache batch_size gen texts =
     (if texts = [] \<or> batch_size = 0 then Inr ([], gen)
      else
        (case process_batch api use_cache gen (take batch_size texts) of
           Inl e \<Rightarrow> Inl e
         | Inr (batch_results, gen') \<Rightarrow>
             (case embed_batches api use_cache batch_size gen' (drop batch_size texts) of
                Inl e \<Rightarrow> Inl e
              | Inr (results, gen'') \<Rightarrow> Inr (batch_results @ results, gen''))))"
  by pat_completeness auto
termination
  by (relation "measure (\<lambda>(api, use_cache, batch_size, gen, texts). length texts)") auto

text \<open>
  \<open>range\<close> raises \<open>ValueError\<close> for step 0 and is empty for a negative step, in which
  case the loop body never runs.
\<close>

definition generate_embeddings_batch ::
  "'p provider \<Rightarrow> 'p embedding_generator \<Rightarrow> string list \<Rightarrow> bool \<Rightarrow> int
     \<Rightarrow> py_error + (vec list \<times> 'p embedding_generator)" where
  "generate_embeddings_batch api gen texts use_cache batch_size =
     (if batch_size = 0 then Inl ValueError
      else if batch_size < 0 then Inr ([], gen)
      else embed_batches api use_cache (nat batch_size) gen texts)"

section \<open>cache\_manager.py\<close>

text \<open>
  The three caches are dicts in insertion order, kept as association lists: the first
  pair is the oldest key. \<open>'r\<close> is the type of a cached search result list. The digest
  \<open>hashlib.md5(text.encode()).hexdigest()\<close> is the parameter \<open>md5\<close>.
\<close>

record 'r cache_manager =
  max_size :: int
  embedding_cache :: "(string \<times> vec) list"
  search_cache :: "(string \<times> 'r) list"
  regulation_cache :: "(string \<times> string) list"

definition new_cache_manager :: "int \<Rightarrow> 'r cache_manager" where
  "new_cache_manager n =
     \<lparr>max_size = n, embedding_cache = [], search_cache = [], regulation_cache = []\<rparr>"

definition generate_key :: "(string \<Rightarrow> string) \<Rightarrow> string \<Rightarrow> string" where
  "generate_key md5 text = md5 text"

definition get_embedding ::
  "(string \<Rightarrow> string) \<Rightarrow> 'r cache_manager \<Rightarrow> string \<Rightarrow> vec option" where
  "get_embedding md5 cm text = map_of (embedding_cache cm) (generate_key md5 text)"

definition get_search_result ::
  "(string \<Rightarrow> string) \<Rightarrow> 'r cache_manager \<Rightarrow> string \<Rightarrow> 'r option" where
  "get_search_result md5 cm query = map_of (search_cache cm) (generate_key md5 query)"

text \<open>
  The body that \<open>set_embedding\<close> and \<open>set_search_result\<close> share word for word, on the
  cache it is applied to: at or above \<open>max_size\<close> the first key of the dict is deleted
  (\<open>next(iter(cache))\<close> raises \<open>StopIteration\<close> on an empty dict), then the key is
  assigned.
\<close>

definition evict_then_store ::
  "int \<Rightarrow> (string \<times> 'v) list \<Rightarrow> string \<Rightarrow> 'v \<Rightarrow> py_error + (string \<times> 'v) list" where
  "evict_then_store bound cache key val =
     (if int (length cache) \<ge> bound then
        (case cache of
           [] \<Rightarrow> Inl StopIteration
         | (first_key, v) # rest \<Rightarrow>
             Inr (AList.update key val (AList.delete first_key cache)))
      else Inr (AList.update key val cache))"

definition set_embedding ::
  "(string \<Rightarrow> string) \<Rightarrow> 'r cache_manager \<Rightarrow> string \<Rightarrow> vec \<Rightarrow> py_error + 'r cache_manager" where
  "set_embedding md5 cm text embedding =
     (case evict_then_store (max_size cm) (embedding_cache cm)
             (generate_key md5 text) embedding of
        Inl e \<Rightarrow> Inl e
      | Inr cache \<Rightarrow> Inr (cm\<lparr>embedding_cache := cache\<rparr>))"

definition set_search_result ::
  "(string \<Rightarrow> string) \<Rightarrow> 'r cache_manager \<Rightarrow> string \<Rightarrow> 'r \<Rightarrow> py_error + 'r cache_manager" where
  "set_search_result md5 cm query results =
     (case evict_then_store (max_size cm) (search_cache cm)
             (generate_key md5 query) results of
        Inl e \<Rightarrow> Inl e
      | Inr cache \<Rightarrow> Inr (cm\<lparr>search_cache := cache\<rparr>))"

text \<open>
  A caller that performs a list of set operations on one cache manager, in any mix of
  the two namespaces. A call that raises leaves the loop; the cache manager keeps the
  state it had, which is returned with the error.
\<close>

datatype 'r set_op = SetEmbedding string vec | SetSearchResult string 'r

definition apply_set ::
  "(string \<Rightarrow> string) \<Rightarrow> 'r cache_manager \<Rightarrow> 'r set_op \<Rightarrow> py_error + 'r cache_manager" where
  "apply_set md5 cm op =
     (case op of
        SetEmbedding text embedding \<Rightarrow> set_embedding md5 cm text embedding
      | SetSearchResult query results \<Rightarrow> set_search_result md5 cm query results)"

fun run_sets ::
  "(string \<Rightarrow> string) \<Rightarrow> 'r cache_manager \<Rightarrow> 'r set_op list
     \<Rightarrow> py_error option \<times> 'r cache_manager" where
  "run_sets md5 cm [] = (None, cm)"
| "run_sets md5 cm (op # ops) =
     (case apply_set md5 cm op of
        Inl e \<Rightarrow> (Some e, cm)
      | Inr cm' \<Rightarrow> run_sets md5 cm' ops)"

text \<open>The same loop seen from a single cache: the list of keys and values stored in it.\<close>

fun store_all ::
  "int \<Rightarrow> (string \<times> 'v) list \<Rightarrow> (string \<times> 'v) list
     \<Rightarrow> py_error option \<times> (string \<times> 'v) list" where
  "store_all bound cache [] = (None, cache)"
| "store_all bound cache ((key, val) # rest) =
     (case evict_then_store bound cache key val of
        Inl e \<Rightarrow> (Some e, cache)
      | Inr cache' \<Rightarrow> store_all bound cache' rest)"

definition clear_cache :: "'r cache_manager \<Rightarrow> string option \<Rightarrow> 'r cache_manager" where
  "clear_cache cm cache_type =
     (if cache_type = Some ''embedding'' then cm\<lparr>embedding_cache := []\<rparr>
      else if cache_type = Some ''search'' then cm\<lparr>search_cache := []\<rparr>
      else if cache_type = Some ''regulation'' then cm\<lparr>regulation_cache := []\<rparr>
      else cm\<lparr>embedding_cache := [], search_cache := [], regulation_cache := []\<rparr>)"

section \<open>Concrete inputs\<close>

text \<open>
  Three indexed chunks, two of them from the source \<open>Act-A\<close>, behind a Chroma
  collection that rejects a request for fewer than one result, as the repository's
  \<open>VectorDatabase\<close> sees it; and a stand-in vector database that answers every request
  with the first chunk.
\<close>

definition act_a1 :: document_obj where
  "act_a1 = \<lparr>page_content = ''a1'', metadata = [''source'' \<mapsto> MStr ''Act-A''], obj_id = 1\<rparr>"

definition act_b1 :: document_obj where
  "act_b1 = \<lparr>page_content = ''b1'', metadata = [''source'' \<mapsto> MStr ''Act-B''], obj_id = 2\<rparr>"

definition act_a2 :: document_obj where
  "act_a2 = \<lparr>page_content = ''a2'', metadata = [''source'' \<mapsto> MStr ''Act-A''], obj_id = 3\<rparr>"

definition chroma_three :: vector_store where
  "chroma_three query k filter_dict =
     (if k \<le> 0 then Inl ValueError
      else Inr (take (nat k) [(act_a1, 0.9), (act_b1, 0.8), (act_a2, 0.7)]))"

definition three_chunks :: vector_db where
  "three_chunks = search_with_scores chroma_three"

definition always_first :: vector_db where
  "always_first query k filter_dict = [(act_a1, 0.9)]"

text \<open>
  An embedding provider whose every call fails, a generator that has cached nothing, and
  a cache manager with one entry in each of its three caches.
\<close>

definition failing_provider :: "nat provider" where
  "failing_provider =
     \<lparr>embed_query = (\<lambda>p text. (Inl ProviderError, Suc p)),
      embed_documents = (\<lambda>p texts. (Inl ProviderError, Suc p))\<rparr>"

definition fresh_generator :: "nat embedding_generator" where
  "fresh_generator = \<lparr>embeddings = 0, eg_embedding_cache = Map.empty\<rparr>"

definition filled_cache_manager :: "nat cache_manager" where
  "filled_cache_manager =
     \<lparr>max_size = 2,
      embedding_cache = [(''k1'', [1])],
      search_cache = [(''k2'', 7)],
      regulation_cache = [(''k3'', ''text'')]\<rparr>"

text \<open>
  A splitter that cuts a text in two, a file reader that always succeeds, and metadata
  from a caller who sets \<open>source\<close> and \<open>chunk_index\<close>.
\<close>

definition two_halves :: "string \<Rightarrow> string list" where
  "two_halves text = [take 3 text, drop 3 text]"

definition read_ok :: "string \<Rightarrow> py_error + string" where
  "read_ok file_path = Inr ''hello''"

definition caller_metadata :: "string \<rightharpoonup> mval" where
  "caller_metadata = [''source'' \<mapsto> MStr ''X'', ''chunk_index'' \<mapsto> MInt 9]"


text \<open>The bound on the two caches that have a setter.\<close>

definition within_bound :: "'r cache_manager \<Rightarrow> bool" where
  "within_bound cm =
     (int (length (embedding_cache cm)) \<le> max_size cm
      \<and> int (length (search_cache cm)) \<le> max_size cm)"

text \<open>
  Three embeddings under three keys, and the cache manager of capacity 2 after they were
  stored in that order.
\<close>

definition three_embeddings :: "(string \<times> vec) list" where
  "three_embeddings = [(''a'', [1]), (''b'', [2]), (''c'', [3])]"

definition after_three :: "nat cache_manager" where
  "after_three =
     \<lparr>max_size = 2, embedding_cache = [(''b'', [2]), (''c'', [3])],
      search_cache = [], regulation_cache = []\<rparr>"

text \<open>
  The vector that a sub-batch takes from the cache for a text: the cache entry when
  \<open>use_cache\<close> is set and the text is cached, none otherwise.
\<close>

definition cached_vector :: "bool \<Rightarrow> 'p embedding_generator \<Rightarrow> string \<Rightarrow> vec option" where
  "cached_vector use_cache gen text =
     (if use_cache then eg_embedding_cache gen text else None)"

text \<open>
  The vectors of one sub-batch as the specification describes them, to be compared with
  \<open>process_batch\<close>: position \<open>i\<close> holds the cached vector of the text at
  position \<open>i\<close>, or, for a text that is not cached, the provider's answer for it,
  which is the answer whose place among the answers is the number of not-cached texts
  before position \<open>i\<close>; when the provider's call fails every answer is the zero
  vector.
\<close>

definition sub_batch_vectors ::
  "'p provider \<Rightarrow> bool \<Rightarrow> 'p embedding_generator \<Rightarrow> string list \<Rightarrow> vec list" where
  "sub_batch_vectors api use_cache gen batch =
     (let uncached = filter (\<lambda>text. cached_vector use_cache gen text = None) batch;
          answers =
            (case fst (embed_documents api (embeddings gen) uncached) of
               Inr batch_embeddings \<Rightarrow> batch_embeddings
             | Inl e \<Rightarrow> replicate (length uncached) zero_vector)
      in map (\<lambda>i. case cached_vector use_cache gen (batch ! i) of
                     Some embedding \<Rightarrow> embedding
                   | None \<Rightarrow>
                       answers ! length (filter (\<lambda>text. cached_vector use_cache gen text = None)
                                           (take i batch)))
           [0..<length batch])"

text \<open>
  What the core expects of the external provider: a call that returns gives one vector
  per text. The dimension of the vectors and the failures are left open.
\<close>

definition provider_contract :: "'p provider \<Rightarrow> bool" where
  "provider_contract api =
     (\<forall>p texts. case fst (embed_documents api p texts) of
                  Inr vectors \<Rightarrow> length vectors = length texts
                | Inl e \<Rightarrow> True)"

text \<open>
  A provider whose first call succeeds, with the length of each text as its one
  coordinate, and whose later calls fail; and a generator that has cached one text.
\<close>

definition flaky_provider :: "nat provider" where
  "flaky_provider =
     \<lparr>embed_query = (\<lambda>p text. (Inr [real (length text)], Suc p)),
      embed_documents = (\<lambda>p texts.
        (if p = 0 then Inr (map (\<lambda>t. [real (length t)]) texts) else Inl ProviderError,
         Suc p))\<rparr>"

definition one_cached :: "nat embedding_generator" where
  "one_cached = \<lparr>embeddings = 0, eg_embedding_cache = [''b'' \<mapsto> [9]]\<rparr>"

section \<open>Deduplication by source label\<close>

lemma collect_regulations_fst_notin:
  "fst ` set (collect_regulations seen docs) \<inter> seen = {}"
proof (induction docs arbitrary: seen)
  case Nil
  show ?case by simp
next
  case (Cons d ds)
  have a: "fst ` set (collect_regulations seen ds) \<inter> seen = {}"
    by (rule Cons.IH)
  have b: "fst ` set (collect_regulations (insert (source_of d) seen) ds)
             \<inter> insert (source_of d) seen = {}"
    by (rule Cons.IH)
  show ?case using a b by (auto simp: Let_def)
qed

lemma collect_regulations_distinct:
  "distinct (map fst (collect_regulations seen docs))"
proof (induction docs arbitrary: seen)
  case Nil
  show ?case by simp
next
  case (Cons d ds)
  have "source_of d \<notin> fst ` set (collect_regulations (insert (source_of d) seen) ds)"
    using collect_regulations_fst_notin [of "insert (source_of d) seen" ds] by auto
  then show ?case using Cons.IH by (simp add: Let_def)
qed

lemma collect_regulations_index:
  "collect_regulations seen docs =
     [(source_of (docs ! i), page_content (docs ! i)).
        i \<leftarrow> [0..<length docs],
        source_of (docs ! i) \<notin> seen \<union> source_of ` set (take i docs)]"
proof (induction docs arbitrary: seen)
  case Nil
  show ?case by simp
next
  case (Cons d ds)
  have shift: "[0..<length (d # ds)] = 0 # map Suc [0..<length ds]"
    by (simp add: upt_conv_Cons map_Suc_upt del: upt_Suc)
  show ?case
    unfolding shift
    by (auto simp add: Cons.IH Let_def o_def simp del: upt_Suc
          intro!: arg_cong [where f = concat] map_cong)
qed

text \<open>
  C1. Whatever the vector database returns and whatever \<open>k\<close> is,
  \<open>retrieve_relevant_regulations\<close> returns pairs whose labels are pairwise different.
  The result is read off the ranked search results from left to right: the chunk at
  position \<open>i\<close> is kept exactly when no earlier position has the same source label, so
  every later chunk of a source that has already contributed is dropped, wherever it
  ranks.
\<close>

theorem retrieve_no_duplicate_labels:
  "distinct (map fst
     (retrieve_relevant_regulations extract_keywords vector_db user_document k use_hybrid))
   \<and> retrieve_relevant_regulations extract_keywords vector_db user_document k use_hybrid =
       (if blank user_document then []
        else
          (let results = search_results extract_keywords vector_db user_document k use_hybrid
           in [(source_of (results ! i), page_content (results ! i)).
                 i \<leftarrow> [0..<length results],
                 source_of (results ! i) \<notin> source_of ` set (take i results)]))"
proof
  show "distinct (map fst (retrieve_relevant_regulations extract_keywords vector_db
          user_document k use_hybrid))"
    by (simp add: retrieve_relevant_regulations_def collect_regulations_distinct)
next
  show "retrieve_relevant_regulations extract_keywords vector_db user_document k use_hybrid =
       (if blank user_document then []
        else
          (let results = search_results extract_keywords vector_db user_document k use_hybrid
           in [(source_of (results ! i), page_content (results ! i)).
                 i \<leftarrow> [0..<length results],
                 source_of (results ! i) \<notin> source_of ` set (take i results)]))"
    unfolding retrieve_relevant_regulations_def Let_def
    by (subst collect_regulations_index) simp
qed

lemma retrieve_three_chunks:
  "retrieve_relevant_regulations (\<lambda>q. []) three_chunks ''text'' 3 True =
     [(MStr ''Act-A'', ''a1''), (MStr ''Act-B'', ''b1'')]"
  by (simp add: retrieve_relevant_regulations_def search_results_def semantic_search_def
        blank_def py_strip_def py_isspace_def slice_to_def source_of_def hybrid_search_def
        keyword_search_def merge_results_def doc_scores_def doc_map_def sorted_reverse_def
        semantic_step_def keyword_step_def score_get_def three_chunks_def Let_def
        search_with_scores_def chroma_three_def truthy_def act_a1_def act_b1_def act_a2_def)

theorem retrieve_no_duplicate_labels_witness:
  "distinct (map fst (retrieve_relevant_regulations (\<lambda>q. []) three_chunks ''text'' 3 True))
   \<and> retrieve_relevant_regulations (\<lambda>q. []) three_chunks ''text'' 3 True =
       [(MStr ''Act-A'', ''a1''), (MStr ''Act-B'', ''b1'')]"
proof
  show "distinct (map fst
          (retrieve_relevant_regulations (\<lambda>q. []) three_chunks ''text'' 3 True))"
    by (rule conjunct1 [OF retrieve_no_duplicate_labels])
next
  show "retrieve_relevant_regulations (\<lambda>q. []) three_chunks ''text'' 3 True =
          [(MStr ''Act-A'', ''a1''), (MStr ''Act-B'', ''b1'')]"
    by (rule retrieve_three_chunks)
qed

section \<open>Blank input\<close>

lemma py_strip_Nil_iff: "py_strip s = [] \<longleftrightarrow> (\<forall>c\<in>set s. py_isspace c)"
proof
  assume "py_strip s = []"
  then have all: "\<forall>c\<in>set (dropWhile py_isspace s). py_isspace c"
    by (simp add: py_strip_def dropWhile_eq_Nil_conv)
  have "dropWhile py_isspace s = []"
  proof (rule ccontr)
    assume ne: "dropWhile py_isspace s \<noteq> []"
    then have "\<not> py_isspace (hd (dropWhile py_isspace s))"
      by (rule hd_dropWhile)
    moreover have "hd (dropWhile py_isspace s) \<in> set (dropWhile py_isspace s)"
      using ne by simp
    ultimately show False using all by blast
  qed
  then show "\<forall>c\<in>set s. py_isspace c"
    by (simp add: dropWhile_eq_Nil_conv)
next
  assume "\<forall>c\<in>set s. py_isspace c"
  then show "py_strip s = []"
    by (auto simp: py_strip_def dest: set_dropWhileD)
qed

lemma blank_iff: "blank s \<longleftrightarrow> (\<forall>c\<in>set s. py_isspace c)"
  by (auto simp: blank_def py_strip_Nil_iff)

text \<open>
  C9. For a text that is empty or consists of whitespace only, \<open>generate_embedding\<close>
  returns 768 zeros and leaves the generator as it was: the state of the provider is
  untouched, so the provider was not called, and the cache is neither changed nor able
  to influence the result, which is the same for every cache, provider and value of
  \<open>use_cache\<close>.
\<close>

theorem generate_embedding_blank:
  assumes "\<forall>c\<in>set text. py_isspace c"
  shows "generate_embedding api gen text use_cache = (replicate 768 0, gen)"
  using assms by (simp add: generate_embedding_def blank_iff zero_vector_def)

theorem generate_embedding_blank_witness:
  "generate_embedding failing_provider fresh_generator [CHR '' '', CHR 0x09, CHR 0x0A] True
     = (replicate 768 0, fresh_generator)
   \<and> generate_embedding failing_provider fresh_generator [] False
     = (replicate 768 0, fresh_generator)"
  using generate_embedding_blank
          [of "[CHR '' '', CHR 0x09, CHR 0x0A]" failing_provider fresh_generator True]
    generate_embedding_blank [of "[]" failing_provider fresh_generator False]
  by (simp add: py_isspace_def)

section \<open>The keyword search\<close>

text \<open>
  C8. The keyword step of the hybrid search returns the list that a semantic search
  returns for the same query and filter with \<open>k = 10\<close> and the default \<open>min_score\<close>
  of 0: the result is the same for every keyword extractor, so the keywords are not
  used. Spelled out, a query that is not blank asks the vector database for 20
  candidates, keeps those with a score of at least 0 and returns the first 10.
\<close>

theorem keyword_search_semantic_alias:
  "keyword_search extract_keywords vector_db query filter_dict =
     semantic_search vector_db query 10 0 filter_dict
   \<and> keyword_search extract_keywords vector_db query filter_dict =
     (if blank query then []
      else take 10 (map fst (filter (\<lambda>(doc, score). score \<ge> 0)
                     (vector_db query 20 filter_dict))))"
  by (simp add: keyword_search_def semantic_search_def slice_to_def Let_def)

theorem keyword_search_semantic_alias_witness:
  "keyword_search (\<lambda>q. [q]) three_chunks ''data'' None =
     semantic_search three_chunks ''data'' 10 0 None
   \<and> map obj_id (keyword_search (\<lambda>q. [q]) three_chunks ''data'' None) = [1, 2, 3]"
proof
  show "keyword_search (\<lambda>q. [q]) three_chunks ''data'' None =
          semantic_search three_chunks ''data'' 10 0 None"
    by (rule conjunct1 [OF keyword_search_semantic_alias])
next
  show "map obj_id (keyword_search (\<lambda>q. [q]) three_chunks ''data'' None) = [1, 2, 3]"
    by (simp add: keyword_search_def semantic_search_def slice_to_def blank_def py_strip_def
          py_isspace_def three_chunks_def search_with_scores_def chroma_three_def truthy_def
          act_a1_def act_b1_def act_a2_def)
qed

section \<open>Clearing the caches\<close>

text \<open>
  C10. \<open>clear_cache\<close> called with anything but \<open>"embedding"\<close>, \<open>"search"\<close> or
  \<open>"regulation"\<close> (a misspelling such as \<open>"embeddings"\<close>, or \<open>None\<close>) empties all
  three caches. The function has no failing branch: it returns a cache manager for
  every argument.
\<close>

theorem clear_cache_unrecognized:
  assumes "cache_type \<notin> {Some ''embedding'', Some ''search'', Some ''regulation''}"
  shows "clear_cache cm cache_type =
           cm\<lparr>embedding_cache := [], search_cache := [], regulation_cache := []\<rparr>"
  using assms by (simp add: clear_cache_def)

theorem clear_cache_unrecognized_witness:
  "clear_cache filled_cache_manager (Some ''embeddings'') =
     \<lparr>max_size = 2, embedding_cache = [], search_cache = [], regulation_cache = []\<rparr>
   \<and> clear_cache filled_cache_manager None =
     \<lparr>max_size = 2, embedding_cache = [], search_cache = [], regulation_cache = []\<rparr>"
  using clear_cache_unrecognized [of "Some ''embeddings''" filled_cache_manager]
    clear_cache_unrecognized [of None filled_cache_manager]
  by (simp add: filled_cache_manager_def)

section \<open>Chunk metadata\<close>

lemma length_process_text:
  "length (process_text split_text text source_label custom) =
     (if blank text then 0 else length (split_text text))"
  by (simp add: process_text_def Let_def)

lemma nth_process_text:
  assumes "i < length (process_text split_text text source_label custom)"
  shows "metadata (process_text split_text text source_label custom ! i) =
           update_metadata
             [''source'' \<mapsto> MStr source_label,
              ''chunk_index'' \<mapsto> MInt (int i),
              ''total_chunks'' \<mapsto>
                MInt (int (length (process_text split_text text source_label custom)))]
             custom"
proof -
  have nb: "\<not> blank text" and i: "i < length (split_text text)"
    using assms by (auto simp: length_process_text split: if_splits)
  show ?thesis
    using nb i by (simp add: process_text_def Let_def nth_enumerate_eq)
qed

lemma length_process_file:
  "length (process_file extract_text basename split_text file_path source_label custom) =
     (case extract_text file_path of
        Inl e \<Rightarrow> 0
      | Inr text \<Rightarrow> if blank text then 0 else length (split_text text))"
  by (simp add: process_file_def Let_def split: sum.splits)

lemma nth_process_file:
  assumes "i < length (process_file extract_text basename split_text file_path
                          source_label custom)"
  shows "metadata (process_file extract_text basename split_text file_path
                     source_label custom ! i) =
           update_metadata
             [''source'' \<mapsto>
                MStr (case source_label of None \<Rightarrow> basename file_path | Some l \<Rightarrow> l),
              ''source_file'' \<mapsto> MStr file_path,
              ''chunk_index'' \<mapsto> MInt (int i),
              ''total_chunks'' \<mapsto>
                MInt (int (length (process_file extract_text basename split_text file_path
                                     source_label custom)))]
             custom"
proof -
  obtain body where t: "extract_text file_path = Inr body"
    and nb: "\<not> blank body" and i: "i < length (split_text body)"
    using assms by (auto simp: length_process_file split: sum.splits if_splits)
  show ?thesis
    using t nb i by (simp add: process_file_def Let_def nth_enumerate_eq)
qed

lemma update_metadata_apply:
  "update_metadata generated custom key =
     (case (case custom of None \<Rightarrow> None | Some m \<Rightarrow> m key) of
        Some v \<Rightarrow> Some v
      | None \<Rightarrow> generated key)"
  by (simp add: update_metadata_def map_add_def split: option.splits)

text \<open>
  C3 (as the code has it). In every chunk that \<open>process_text\<close> or \<open>process_file\<close>
  produces, a key of the caller's metadata holds the caller's value, the key
  \<open>source\<close> included; a key the caller does not supply holds the generated value:
  the source label (for \<open>process_file\<close> without a label, the base name of the path),
  the file path, the chunk index, and the number of chunks. The key \<open>source\<close> is
  not protected: it holds the given label only when the caller's metadata has no
  \<open>source\<close> entry.
\<close>

theorem chunk_metadata_caller_overrides:
  "(\<forall>i key. i < length (process_text split_text text source_label custom) \<longrightarrow>
      metadata (process_text split_text text source_label custom ! i) key =
        (case (case custom of None \<Rightarrow> None | Some m \<Rightarrow> m key) of
           Some v \<Rightarrow> Some v
         | None \<Rightarrow>
             [''source'' \<mapsto> MStr source_label,
              ''chunk_index'' \<mapsto> MInt (int i),
              ''total_chunks'' \<mapsto>
                MInt (int (length (process_text split_text text source_label custom)))] key))
   \<and> (\<forall>i key. i < length (process_file extract_text basename split_text file_path
                              file_label custom) \<longrightarrow>
      metadata (process_file extract_text basename split_text file_path
                  file_label custom ! i) key =
        (case (case custom of None \<Rightarrow> None | Some m \<Rightarrow> m key) of
           Some v \<Rightarrow> Some v
         | None \<Rightarrow>
             [''source'' \<mapsto>
                MStr (case file_label of None \<Rightarrow> basename file_path | Some l \<Rightarrow> l),
              ''source_file'' \<mapsto> MStr file_path,
              ''chunk_index'' \<mapsto> MInt (int i),
              ''total_chunks'' \<mapsto>
                MInt (int (length (process_file extract_text basename split_text file_path
                                     file_label custom)))] key))"
proof (intro conjI allI impI)
  fix i key
  assume "i < length (process_text split_text text source_label custom)"
  then show "metadata (process_text split_text text source_label custom ! i) key =
        (case (case custom of None \<Rightarrow> None | Some m \<Rightarrow> m key) of
           Some v \<Rightarrow> Some v
         | None \<Rightarrow>
             [''source'' \<mapsto> MStr source_label,
              ''chunk_index'' \<mapsto> MInt (int i),
              ''total_chunks'' \<mapsto>
                MInt (int (length (process_text split_text text source_label custom)))] key)"
    by (simp only: nth_process_text update_metadata_apply)
next
  fix i key
  assume "i < length (process_file extract_text basename split_text file_path
                              file_label custom)"
  then show "metadata (process_file extract_text basename split_text file_path
                  file_label custom ! i) key =
        (case (case custom of None \<Rightarrow> None | Some m \<Rightarrow> m key) of
           Some v \<Rightarrow> Some v
         | None \<Rightarrow>
             [''source'' \<mapsto>
                MStr (case file_label of None \<Rightarrow> basename file_path | Some l \<Rightarrow> l),
              ''source_file'' \<mapsto> MStr file_path,
              ''chunk_index'' \<mapsto> MInt (int i),
              ''total_chunks'' \<mapsto>
                MInt (int (length (process_file extract_text basename split_text file_path
                                     file_label custom)))] key)"
    by (simp only: nth_process_file update_metadata_apply)
qed

lemma blank_hello: "\<not> blank ''hello''"
  by (simp add: blank_def py_strip_def py_isspace_def)

lemma process_text_example_length:
  "length (process_text two_halves ''hello'' ''Act-A'' (Some caller_metadata)) = 2"
  by (simp add: length_process_text blank_hello two_halves_def)

lemma process_file_example_length:
  "length (process_file read_ok (\<lambda>p. p) two_halves ''a.txt'' None (Some caller_metadata)) = 2"
  by (simp add: length_process_file blank_hello two_halves_def read_ok_def)

theorem chunk_metadata_caller_overrides_witness:
  "metadata (process_text two_halves ''hello'' ''Act-A'' (Some caller_metadata) ! 1)
      ''source'' = Some (MStr ''X'')
   \<and> metadata (process_text two_halves ''hello'' ''Act-A'' (Some caller_metadata) ! 1)
      ''chunk_index'' = Some (MInt 9)
   \<and> metadata (process_text two_halves ''hello'' ''Act-A'' (Some caller_metadata) ! 1)
      ''total_chunks'' = Some (MInt 2)
   \<and> metadata (process_file read_ok (\<lambda>p. p) two_halves ''a.txt'' None
                 (Some caller_metadata) ! 1)
      ''source'' = Some (MStr ''X'')
   \<and> metadata (process_file read_ok (\<lambda>p. p) two_halves ''a.txt'' None
                 (Some caller_metadata) ! 1)
      ''source_file'' = Some (MStr ''a.txt'')"
proof -
  note inst = chunk_metadata_caller_overrides
          [of two_halves "''hello''" "''Act-A''" "Some caller_metadata"
              read_ok "\<lambda>p. p" "''a.txt''" None]
  have l1: "1 < length (process_text two_halves ''hello'' ''Act-A'' (Some caller_metadata))"
    by (simp add: process_text_example_length)
  have l2: "1 < length (process_file read_ok (\<lambda>p. p) two_halves ''a.txt'' None
                          (Some caller_metadata))"
    by (simp add: process_file_example_length)
  note pt = inst [THEN conjunct1, rule_format, OF l1]
  note pf = inst [THEN conjunct2, rule_format, OF l2]
  show ?thesis
    using pt [of "''source''"] pt [of "''chunk_index''"] pt [of "''total_chunks''"]
      pf [of "''source''"] pf [of "''source_file''"]
    unfolding process_text_example_length process_file_example_length
    by (simp add: caller_metadata_def)
qed

text \<open>
  The claim as the specification states it fails: with the label \<open>Act-A\<close> and caller
  metadata that maps \<open>source\<close> to \<open>X\<close>, every chunk of both functions carries
  \<open>X\<close> under \<open>source\<close>.
\<close>

theorem source_key_overridden_counterexample:
  "map (\<lambda>doc. metadata doc ''source'')
     (process_text two_halves ''hello'' ''Act-A'' (Some caller_metadata)) =
     [Some (MStr ''X''), Some (MStr ''X'')]
   \<and> map (\<lambda>doc. metadata doc ''source'')
     (process_file read_ok (\<lambda>p. p) two_halves ''a.txt'' (Some ''Act-A'')
        (Some caller_metadata)) =
     [Some (MStr ''X''), Some (MStr ''X'')]
   \<and> MStr ''X'' \<noteq> MStr ''Act-A''"
  by (simp add: process_text_def process_file_def blank_hello two_halves_def read_ok_def
        caller_metadata_def update_metadata_def Let_def)

section \<open>Semantic search\<close>

lemmas store_eval = three_chunks_def search_with_scores_def chroma_three_def truthy_def
  always_first_def blank_def py_strip_def py_isspace_def slice_to_def

lemmas doc_eval = act_a1_def act_b1_def act_a2_def

lemma length_slice_to_le: "0 \<le> k \<Longrightarrow> int (length (slice_to k xs)) \<le> k"
  by (simp add: slice_to_def)

lemma set_slice_to_subset: "set (slice_to k xs) \<subseteq> set xs"
  by (auto simp: slice_to_def dest: in_set_takeD)





section \<open>Hybrid search\<close>

lemma set_update_subset: "set (AList.update k v al) \<subseteq> insert (k, v) (set al)"
  by (induction al) auto

lemma doc_map_fold_values:
  "snd ` set (fold (\<lambda>doc m. AList.update (obj_id doc) doc m) docs m0)
     \<subseteq> set docs \<union> snd ` set m0"
proof (induction docs arbitrary: m0)
  case Nil
  show ?case by simp
next
  case (Cons d ds)
  have step: "snd ` set (AList.update (obj_id d) d m0) \<subseteq> insert d (snd ` set m0)"
    using set_update_subset [of "obj_id d" d m0] by force
  have "snd ` set (fold (\<lambda>doc m. AList.update (obj_id doc) doc m) (d # ds) m0)
          \<subseteq> set ds \<union> snd ` set (AList.update (obj_id d) d m0)"
    using Cons.IH [of "AList.update (obj_id d) d m0"] by simp
  also have "\<dots> \<subseteq> set ds \<union> insert d (snd ` set m0)"
    using step by blast
  finally show ?case by auto
qed

lemma doc_map_values: "snd ` set (doc_map docs) \<subseteq> set docs"
  using doc_map_fold_values [of docs "[]"] by (simp add: doc_map_def)

lemma set_sorted_reverse: "set (sorted_reverse key xs) = set xs"
  by (simp add: sorted_reverse_def)

lemma merge_results_subset:
  "set (merge_results semantic_results keyword_results semantic_weight keyword_weight)
     \<subseteq> set semantic_results \<union> set keyword_results"
  using doc_map_values [of "semantic_results @ keyword_results"]
  by (simp add: merge_results_def Let_def set_sorted_reverse)

text \<open>
  C6 (as the code has it). Every element of the list that \<open>hybrid_search\<close> returns is
  an element of the semantic candidate list or of the keyword candidate list, for every
  query, \<open>k\<close>, weights and filter; and for \<open>k\<close> from 0 on the list has at most
  \<open>k\<close> elements.
\<close>

theorem hybrid_search_subset_and_bound:
  "set (hybrid_search extract_keywords vector_db query k semantic_weight keyword_weight
          filter_dict)
     \<subseteq> set (semantic_search vector_db query (k * 2) 0 filter_dict)
       \<union> set (keyword_search extract_keywords vector_db query filter_dict)
   \<and> (0 \<le> k \<longrightarrow>
        int (length (hybrid_search extract_keywords vector_db query k semantic_weight
                       keyword_weight filter_dict)) \<le> k)"
proof
  show "set (hybrid_search extract_keywords vector_db query k semantic_weight keyword_weight
          filter_dict)
     \<subseteq> set (semantic_search vector_db query (k * 2) 0 filter_dict)
       \<union> set (keyword_search extract_keywords vector_db query filter_dict)"
    unfolding hybrid_search_def Let_def
    using set_slice_to_subset merge_results_subset by (rule subset_trans)
next
  show "0 \<le> k \<longrightarrow>
        int (length (hybrid_search extract_keywords vector_db query k semantic_weight
                       keyword_weight filter_dict)) \<le> k"
    by (simp add: hybrid_search_def Let_def length_slice_to_le)
qed

lemmas merge_eval = hybrid_search_def keyword_search_def semantic_search_def
  merge_results_def doc_scores_def doc_map_def sorted_reverse_def semantic_step_def
  keyword_step_def score_get_def Let_def

lemma hybrid_example:
  "map obj_id (hybrid_search (\<lambda>q. []) three_chunks ''data'' 2 0.7 0.3 None) = [1, 2]"
  by (simp add: merge_eval store_eval doc_eval)

theorem hybrid_search_subset_and_bound_witness:
  "set (hybrid_search (\<lambda>q. []) three_chunks ''data'' 2 0.7 0.3 None)
     \<subseteq> set (semantic_search three_chunks ''data'' (2 * 2) 0 None)
       \<union> set (keyword_search (\<lambda>q. []) three_chunks ''data'' None)
   \<and> int (length (hybrid_search (\<lambda>q. []) three_chunks ''data'' 2 0.7 0.3 None)) \<le> 2
   \<and> map obj_id (hybrid_search (\<lambda>q. []) three_chunks ''data'' 2 0.7 0.3 None) = [1, 2]"
  using hybrid_search_subset_and_bound [of "\<lambda>q. []" three_chunks "''data''" 2 "0.7" "0.3" None]
    hybrid_example
  by simp

text \<open>
  The bound on the length does not hold for every \<open>k\<close>: with \<open>k = -1\<close> the
  semantic request is rejected by the collection, the keyword step still asks for 20
  candidates and gets three, and the slice \<open>[:-1]\<close> returns two of them.
\<close>

theorem hybrid_search_negative_k_counterexample:
  "map obj_id (hybrid_search (\<lambda>q. []) three_chunks ''data'' (- 1) 0.7 0.3 None) = [1, 2]
   \<and> \<not> int (length (hybrid_search (\<lambda>q. []) three_chunks ''data'' (- 1) 0.7 0.3 None))
         \<le> - 1"
  by (simp add: merge_eval store_eval doc_eval)

section \<open>Rank fusion\<close>





















section \<open>The bounded caches\<close>

lemma length_update_le: "length (AList.update k v al) \<le> Suc (length al)"
  by (induction al) auto

lemma update_fresh: "k \<notin> fst ` set al \<Longrightarrow> AList.update k v al = al @ [(k, v)]"
  by (induction al) auto

lemma evict_then_store_bounded:
  assumes "evict_then_store bound cache key val = Inr cache'"
    and "int (length cache) \<le> bound"
  shows "int (length cache') \<le> bound"
proof (cases "int (length cache) \<ge> bound")
  case True
  then obtain p rest where c: "cache = p # rest"
    using assms(1) by (cases cache) (auto simp: evict_then_store_def)
  have "length (AList.delete (fst p) cache) \<le> length rest"
    using length_delete_le [of "fst p" rest] by (simp add: c)
  moreover have "cache' = AList.update key val (AList.delete (fst p) cache)"
    using assms(1) True c by (auto simp: evict_then_store_def split: prod.splits)
  ultimately have "length cache' \<le> Suc (length rest)"
    using length_update_le [of key val "AList.delete (fst p) cache"] by simp
  then show ?thesis using assms(2) c by simp
next
  case False
  then have "cache' = AList.update key val cache"
    using assms(1) by (simp add: evict_then_store_def)
  then show ?thesis
    using False length_update_le [of key val cache] by simp
qed

lemma evict_then_store_no_error:
  assumes "0 < bound"
  shows "\<exists>cache'. evict_then_store bound cache key val = Inr cache'"
  using assms by (cases cache) (auto simp: evict_then_store_def)

lemma store_all_fifo:
  assumes "0 < bound" and "int (length cache) \<le> bound"
    and "distinct (map fst (cache @ kvs))"
  shows "store_all bound cache kvs =
           (None, drop (length (cache @ kvs) - nat bound) (cache @ kvs))"
  using assms
proof (induction kvs arbitrary: cache)
  case Nil
  then show ?case by simp
next
  case (Cons kv kvs)
  obtain k v where kv: "kv = (k, v)" by (cases kv)
  have fresh: "k \<notin> fst ` set cache"
    using Cons.prems(3) by (auto simp: kv)
  show ?case
  proof (cases "int (length cache) \<ge> bound")
    case True
    then have len: "length cache = nat bound" and "cache \<noteq> []"
      using Cons.prems(1,2) by auto
    then obtain fk fv rest where c: "cache = (fk, fv) # rest"
      by (cases cache) auto
    have fk: "fk \<notin> fst ` set rest"
      using Cons.prems(3) by (auto simp: c)
    have fresh': "k \<notin> fst ` set rest" "k \<noteq> fk"
      using fresh by (auto simp: c)
    have step: "evict_then_store bound cache k v = Inr (rest @ [(k, v)])"
      using True fk fresh' by (simp add: evict_then_store_def c update_fresh)
    have "store_all bound (rest @ [(k, v)]) kvs =
            (None, drop (length ((rest @ [(k, v)]) @ kvs) - nat bound)
                     ((rest @ [(k, v)]) @ kvs))"
    proof (rule Cons.IH)
      show "0 < bound" by (rule Cons.prems(1))
      show "int (length (rest @ [(k, v)])) \<le> bound"
        using len c by simp
      show "distinct (map fst ((rest @ [(k, v)]) @ kvs))"
        using Cons.prems(3) by (simp add: c kv)
    qed
    moreover have "drop (length ((rest @ [(k, v)]) @ kvs) - nat bound)
                     ((rest @ [(k, v)]) @ kvs)
                   = drop (length (cache @ kv # kvs) - nat bound) (cache @ kv # kvs)"
    proof -
      have "length (cache @ kv # kvs) - nat bound
              = Suc (length ((rest @ [(k, v)]) @ kvs) - nat bound)"
        using len c by simp
      then show ?thesis by (simp add: c kv)
    qed
    ultimately show ?thesis
      by (simp add: kv step)
  next
    case False
    have step: "evict_then_store bound cache k v = Inr (cache @ [(k, v)])"
      using False fresh by (simp add: evict_then_store_def update_fresh)
    have "store_all bound (cache @ [(k, v)]) kvs =
            (None, drop (length ((cache @ [(k, v)]) @ kvs) - nat bound)
                     ((cache @ [(k, v)]) @ kvs))"
    proof (rule Cons.IH)
      show "0 < bound" by (rule Cons.prems(1))
      show "int (length (cache @ [(k, v)])) \<le> bound"
        using False by simp
      show "distinct (map fst ((cache @ [(k, v)]) @ kvs))"
        using Cons.prems(3) by (simp add: kv)
    qed
    then show ?thesis
      by (simp add: kv step)
  qed
qed

lemma store_all_capacity_zero:
  "bound \<le> 0 \<Longrightarrow> store_all bound [] (kv # kvs) = (Some StopIteration, [])"
  by (cases kv) (simp add: evict_then_store_def)


lemma store_all_overflow:
  assumes "0 \<le> bound" and "distinct (map fst kvs)" and "int (length kvs) = bound + 1"
  shows "store_all bound [] kvs = (if 0 < bound then None else Some StopIteration, tl kvs)"
proof (cases "0 < bound")
  case True
  have "store_all bound [] kvs = (None, drop (length ([] @ kvs) - nat bound) ([] @ kvs))"
    using True assms(2) by (intro store_all_fifo) simp_all
  moreover have "length kvs - nat bound = 1"
    using assms(1,3) by linarith
  ultimately show ?thesis
    using True by (simp add: drop_Suc)
next
  case False
  then have "bound = 0" using assms(1) by simp
  then obtain kv where "kvs = [kv]"
    using assms(3) by (cases kvs) auto
  then show ?thesis
    using False by (simp add: store_all_capacity_zero)
qed

lemma fifo_contents:
  assumes "distinct (map fst kvs)"
  shows "map_of (tl kvs) (fst (hd kvs)) = None"
    and "(k, v) \<in> set (tl kvs) \<Longrightarrow> map_of (tl kvs) k = Some v"
proof -
  show "map_of (tl kvs) (fst (hd kvs)) = None"
    using assms by (cases kvs) (auto simp: map_of_eq_None_iff)
  have "distinct (map fst (tl kvs))"
    using assms by (cases kvs) auto
  then show "(k, v) \<in> set (tl kvs) \<Longrightarrow> map_of (tl kvs) k = Some v"
    by (rule map_of_is_SomeI)
qed

lemma run_sets_embeddings:
  "run_sets md5 cm (map (\<lambda>(t, e). SetEmbedding t e) kvs) =
     (case store_all (max_size cm) (embedding_cache cm)
             (map (\<lambda>(t, e). (generate_key md5 t, e)) kvs) of
        (r, cache) \<Rightarrow> (r, cm\<lparr>embedding_cache := cache\<rparr>))"
proof (induction kvs arbitrary: cm)
  case Nil
  show ?case by simp
next
  case (Cons kv kvs)
  obtain t e where kv: "kv = (t, e)" by (cases kv)
  show ?case
  proof (cases "evict_then_store (max_size cm) (embedding_cache cm) (generate_key md5 t) e")
    case (Inl err)
    then show ?thesis
      by (simp add: kv apply_set_def set_embedding_def)
  next
    case (Inr cache)
    then show ?thesis
      using Cons.IH [of "cm\<lparr>embedding_cache := cache\<rparr>"]
      by (simp add: kv apply_set_def set_embedding_def)
  qed
qed

lemma run_sets_search_results:
  "run_sets md5 cm (map (\<lambda>(q, rs). SetSearchResult q rs) kvs) =
     (case store_all (max_size cm) (search_cache cm)
             (map (\<lambda>(q, rs). (generate_key md5 q, rs)) kvs) of
        (r, cache) \<Rightarrow> (r, cm\<lparr>search_cache := cache\<rparr>))"
proof (induction kvs arbitrary: cm)
  case Nil
  show ?case by simp
next
  case (Cons kv kvs)
  obtain q rs where kv: "kv = (q, rs)" by (cases kv)
  show ?case
  proof (cases "evict_then_store (max_size cm) (search_cache cm) (generate_key md5 q) rs")
    case (Inl err)
    then show ?thesis
      by (simp add: kv apply_set_def set_search_result_def)
  next
    case (Inr cache)
    then show ?thesis
      using Cons.IH [of "cm\<lparr>search_cache := cache\<rparr>"]
      by (simp add: kv apply_set_def set_search_result_def)
  qed
qed

lemma apply_set_within_bound:
  assumes "apply_set md5 cm op = Inr cm'" and "within_bound cm"
  shows "within_bound cm' \<and> max_size cm' = max_size cm"
proof (cases op)
  case (SetEmbedding t e)
  then obtain cache where
    c: "evict_then_store (max_size cm) (embedding_cache cm) (generate_key md5 t) e = Inr cache"
    and cm': "cm' = cm\<lparr>embedding_cache := cache\<rparr>"
    using assms(1) by (auto simp: apply_set_def set_embedding_def split: sum.splits)
  have "int (length cache) \<le> max_size cm"
    using c assms(2) by (auto simp: within_bound_def intro: evict_then_store_bounded)
  then show ?thesis
    using assms(2) by (simp add: cm' within_bound_def)
next
  case (SetSearchResult q rs)
  then obtain cache where
    c: "evict_then_store (max_size cm) (search_cache cm) (generate_key md5 q) rs = Inr cache"
    and cm': "cm' = cm\<lparr>search_cache := cache\<rparr>"
    using assms(1) by (auto simp: apply_set_def set_search_result_def split: sum.splits)
  have "int (length cache) \<le> max_size cm"
    using c assms(2) by (auto simp: within_bound_def intro: evict_then_store_bounded)
  then show ?thesis
    using assms(2) by (simp add: cm' within_bound_def)
qed

lemma apply_set_no_error:
  assumes "0 < max_size cm"
  shows "\<exists>cm'. apply_set md5 cm op = Inr cm'"
proof (cases op)
  case (SetEmbedding t e)
  then show ?thesis
    using evict_then_store_no_error [OF assms, of "embedding_cache cm" "generate_key md5 t" e]
    by (auto simp: apply_set_def set_embedding_def)
next
  case (SetSearchResult q rs)
  then show ?thesis
    using evict_then_store_no_error [OF assms, of "search_cache cm" "generate_key md5 q" rs]
    by (auto simp: apply_set_def set_search_result_def)
qed

lemma run_sets_within_bound:
  assumes "within_bound cm" and "run_sets md5 cm ops = (r, cm')"
  shows "within_bound cm' \<and> max_size cm' = max_size cm \<and> (0 < max_size cm \<longrightarrow> r = None)"
  using assms
proof (induction ops arbitrary: cm)
  case Nil
  then show ?case by simp
next
  case (Cons op ops)
  show ?case
  proof (cases "apply_set md5 cm op")
    case (Inl err)
    then show ?thesis
      using Cons.prems apply_set_no_error [of cm md5 op] by auto
  next
    case (Inr cm1)
    have step: "within_bound cm1 \<and> max_size cm1 = max_size cm"
      using Inr Cons.prems(1) by (rule apply_set_within_bound)
    moreover have "run_sets md5 cm1 ops = (r, cm')"
      using Cons.prems(2) Inr by simp
    ultimately show ?thesis
      using Cons.IH [of cm1] by simp
  qed
qed


lemma keyed_overflow:
  fixes kvs :: "(string \<times> 'v) list"
  assumes "0 \<le> bound" and "int (length kvs) = bound + 1"
    and "distinct (map (\<lambda>(t, e). generate_key md5 t) kvs)"
    and "store_all bound [] (map (\<lambda>(t, e). (generate_key md5 t, e)) kvs) = (r, cache)"
  shows "int (length cache) = bound"
    and "map_of cache (generate_key md5 (fst (hd kvs))) = None"
    and "\<forall>(t, e)\<in>set (tl kvs). map_of cache (generate_key md5 t) = Some e"
    and "r = None \<longleftrightarrow> 0 < bound"
proof -
  let ?kvs = "map (\<lambda>(t, e). (generate_key md5 t, e)) kvs"
  have keys: "map fst ?kvs = map (\<lambda>(t, e). generate_key md5 t) kvs"
    by (simp add: o_def split_def)
  have d: "distinct (map fst ?kvs)"
    using assms(3) by (simp only: keys)
  have ne: "kvs \<noteq> []"
    using assms(1,2) by auto
  have "store_all bound [] ?kvs = (if 0 < bound then None else Some StopIteration, tl ?kvs)"
    using assms(1) d assms(2) by (intro store_all_overflow) simp_all
  then have r: "r = (if 0 < bound then None else Some StopIteration)"
    and cache: "cache = tl ?kvs"
    using assms(4) by simp_all
  show "int (length cache) = bound"
    using assms(2) ne by (cases kvs) (simp_all add: cache)
  have "fst (hd ?kvs) = generate_key md5 (fst (hd kvs))"
    using ne by (cases kvs) (auto simp: split_def)
  then show "map_of cache (generate_key md5 (fst (hd kvs))) = None"
    using fifo_contents(1) [OF d] by (simp add: cache)
  show "\<forall>(t, e)\<in>set (tl kvs). map_of cache (generate_key md5 t) = Some e"
  proof (clarify)
    fix t e
    assume "(t, e) \<in> set (tl kvs)"
    then have "(generate_key md5 t, e) \<in> set (tl ?kvs)"
      by (force simp: map_tl [symmetric])
    then show "map_of cache (generate_key md5 t) = Some e"
      using fifo_contents(2) [OF d] by (simp add: cache)
  qed
  show "r = None \<longleftrightarrow> 0 < bound"
    by (simp add: r)
qed

text \<open>
  C5. Take a cache manager with a bound \<open>max_size\<close> that is not negative and with both
  caches empty. Storing \<open>max_size + 1\<close> entries under distinct keys in one namespace
  leaves exactly \<open>max_size\<close> entries there, the first key is gone and every other key
  returns its value; the embedding cache and the search cache behave alike. After any
  list of set operations, in any mix of the two namespaces and with any keys, neither
  cache holds more than \<open>max_size\<close> entries. For a positive bound no set operation
  raises. For the bound 0 the first set operation raises \<open>StopIteration\<close>, since there
  is no oldest key to remove, and the cache stays empty, which is the state the claim
  describes.
\<close>

theorem cache_fifo_eviction:
  fixes cm :: "'r cache_manager"
  assumes "0 \<le> max_size cm" and "embedding_cache cm = []" and "search_cache cm = []"
  shows
    "(\<forall>kvs r cm'.
        int (length kvs) = max_size cm + 1
        \<and> distinct (map (\<lambda>(t, e). generate_key md5 t) kvs)
        \<and> run_sets md5 cm (map (\<lambda>(t, e). SetEmbedding t e) kvs) = (r, cm')
        \<longrightarrow> int (length (embedding_cache cm')) = max_size cm
            \<and> get_embedding md5 cm' (fst (hd kvs)) = None
            \<and> (\<forall>(t, e)\<in>set (tl kvs). get_embedding md5 cm' t = Some e)
            \<and> (r = None \<longleftrightarrow> 0 < max_size cm))
     \<and> (\<forall>kvs r cm'.
        int (length kvs) = max_size cm + 1
        \<and> distinct (map (\<lambda>(q, rs). generate_key md5 q) kvs)
        \<and> run_sets md5 cm (map (\<lambda>(q, rs). SetSearchResult q rs) kvs) = (r, cm')
        \<longrightarrow> int (length (search_cache cm')) = max_size cm
            \<and> get_search_result md5 cm' (fst (hd kvs)) = None
            \<and> (\<forall>(q, rs)\<in>set (tl kvs). get_search_result md5 cm' q = Some rs)
            \<and> (r = None \<longleftrightarrow> 0 < max_size cm))
     \<and> (\<forall>ops r cm'.
        run_sets md5 cm ops = (r, cm')
        \<longrightarrow> int (length (embedding_cache cm')) \<le> max_size cm
            \<and> int (length (search_cache cm')) \<le> max_size cm
            \<and> (0 < max_size cm \<longrightarrow> r = None))"
proof (intro conjI allI impI)
  fix kvs :: "(string \<times> vec) list" and r cm'
  assume a: "int (length kvs) = max_size cm + 1
        \<and> distinct (map (\<lambda>(t, e). generate_key md5 t) kvs)
        \<and> run_sets md5 cm (map (\<lambda>(t, e). SetEmbedding t e) kvs) = (r, cm')"
  obtain r0 cache where
    st: "store_all (max_size cm) [] (map (\<lambda>(t, e). (generate_key md5 t, e)) kvs) = (r0, cache)"
    by (cases "store_all (max_size cm) [] (map (\<lambda>(t, e). (generate_key md5 t, e)) kvs)")
  have res: "r = r0" "cm' = cm\<lparr>embedding_cache := cache\<rparr>"
    using a st run_sets_embeddings [of md5 cm kvs] by (simp_all add: assms(2))
  note k = keyed_overflow [OF assms(1) a [THEN conjunct1] a [THEN conjunct2, THEN conjunct1] st]
  show "int (length (embedding_cache cm')) = max_size cm"
    using k(1) by (simp add: res)
  show "get_embedding md5 cm' (fst (hd kvs)) = None"
    using k(2) by (simp add: res get_embedding_def)
  show "\<forall>(t, e)\<in>set (tl kvs). get_embedding md5 cm' t = Some e"
    using k(3) by (simp add: res get_embedding_def)
  show "r = None \<longleftrightarrow> 0 < max_size cm"
    using k(4) by (simp add: res)
next
  fix kvs :: "(string \<times> 'r) list" and r cm'
  assume a: "int (length kvs) = max_size cm + 1
        \<and> distinct (map (\<lambda>(q, rs). generate_key md5 q) kvs)
        \<and> run_sets md5 cm (map (\<lambda>(q, rs). SetSearchResult q rs) kvs) = (r, cm')"
  obtain r0 cache where
    st: "store_all (max_size cm) [] (map (\<lambda>(t, e). (generate_key md5 t, e)) kvs) = (r0, cache)"
    by (cases "store_all (max_size cm) [] (map (\<lambda>(t, e). (generate_key md5 t, e)) kvs)")
  have res: "r = r0" "cm' = cm\<lparr>search_cache := cache\<rparr>"
    using a st run_sets_search_results [of md5 cm kvs] by (simp_all add: assms(3))
  note k = keyed_overflow [OF assms(1) a [THEN conjunct1] a [THEN conjunct2, THEN conjunct1] st]
  show "int (length (search_cache cm')) = max_size cm"
    using k(1) by (simp add: res)
  show "get_search_result md5 cm' (fst (hd kvs)) = None"
    using k(2) by (simp add: res get_search_result_def)
  show "\<forall>(q, rs)\<in>set (tl kvs). get_search_result md5 cm' q = Some rs"
    using k(3) by (simp add: res get_search_result_def)
  show "r = None \<longleftrightarrow> 0 < max_size cm"
    using k(4) by (simp add: res)
next
  fix ops :: "'r set_op list" and r cm'
  assume run: "run_sets md5 cm ops = (r, cm')"
  have "within_bound cm"
    using assms by (simp add: within_bound_def)
  then have inv: "within_bound cm' \<and> max_size cm' = max_size cm
                  \<and> (0 < max_size cm \<longrightarrow> r = None)"
    using run by (rule run_sets_within_bound)
  show "int (length (embedding_cache cm')) \<le> max_size cm"
    using inv by (simp add: within_bound_def)
  show "int (length (search_cache cm')) \<le> max_size cm"
    using inv by (simp add: within_bound_def)
  show "r = None" if "0 < max_size cm"
    using inv that by simp
qed


lemmas cache_eval = new_cache_manager_def apply_set_def set_embedding_def
  set_search_result_def evict_then_store_def generate_key_def get_embedding_def
  get_search_result_def

lemma run_three_embeddings:
  "run_sets (\<lambda>t. t) (new_cache_manager 2) (map (\<lambda>(t, e). SetEmbedding t e) three_embeddings)
     = (None, after_three)"
  by (simp add: cache_eval three_embeddings_def after_three_def)

lemma run_zero_capacity:
  "run_sets (\<lambda>t. t) (new_cache_manager 0 :: nat cache_manager)
     (map (\<lambda>(t, e). SetEmbedding t e) [(''a'', [1])])
     = (Some StopIteration, new_cache_manager 0)"
  by (simp add: cache_eval)

theorem cache_fifo_eviction_witness:
  "run_sets (\<lambda>t. t) (new_cache_manager 2) (map (\<lambda>(t, e). SetEmbedding t e) three_embeddings)
     = (None, after_three)
   \<and> int (length (embedding_cache after_three)) = 2
   \<and> get_embedding (\<lambda>t. t) after_three ''a'' = None
   \<and> get_embedding (\<lambda>t. t) after_three ''b'' = Some [2]
   \<and> get_embedding (\<lambda>t. t) after_three ''c'' = Some [3]
   \<and> int (length (embedding_cache (new_cache_manager 0 :: nat cache_manager))) = 0"
proof -
  have pre: "0 \<le> max_size (new_cache_manager 2 :: nat cache_manager)"
    "embedding_cache (new_cache_manager 2 :: nat cache_manager) = []"
    "search_cache (new_cache_manager 2 :: nat cache_manager) = []"
    by (simp_all add: new_cache_manager_def)
  note inst = cache_fifo_eviction [OF pre, of "\<lambda>t. t", THEN conjunct1, rule_format,
    of three_embeddings None after_three]
  have hyp: "int (length three_embeddings) = max_size (new_cache_manager 2 :: nat cache_manager) + 1
        \<and> distinct (map (\<lambda>(t, e). generate_key (\<lambda>t. t) t) three_embeddings)
        \<and> run_sets (\<lambda>t. t) (new_cache_manager 2)
             (map (\<lambda>(t, e). SetEmbedding t e) three_embeddings) = (None, after_three)"
    by (simp add: run_three_embeddings)
       (simp add: three_embeddings_def new_cache_manager_def generate_key_def)
  have facts: "int (length (embedding_cache after_three))
                 = max_size (new_cache_manager 2 :: nat cache_manager)
     \<and> get_embedding (\<lambda>t. t) after_three (fst (hd three_embeddings)) = None
     \<and> (\<forall>(t, e)\<in>set (tl three_embeddings). get_embedding (\<lambda>t. t) after_three t = Some e)
     \<and> ((None :: py_error option) = None
          \<longleftrightarrow> 0 < max_size (new_cache_manager 2 :: nat cache_manager))"
    by (rule inst [OF hyp])
  have pre0: "0 \<le> max_size (new_cache_manager 0 :: nat cache_manager)"
    "embedding_cache (new_cache_manager 0 :: nat cache_manager) = []"
    "search_cache (new_cache_manager 0 :: nat cache_manager) = []"
    by (simp_all add: new_cache_manager_def)
  note inst0 = cache_fifo_eviction [OF pre0, of "\<lambda>t. t", THEN conjunct1, rule_format,
    of "[(''a'', [1])]" "Some StopIteration" "new_cache_manager 0"]
  have zero: "int (length (embedding_cache (new_cache_manager 0 :: nat cache_manager))) = 0"
    using inst0 run_zero_capacity by (simp add: new_cache_manager_def generate_key_def)
  show ?thesis
    using facts zero run_three_embeddings
    by (simp add: three_embeddings_def new_cache_manager_def)
qed

section \<open>Batch embeddings\<close>

lemma split_cached_enumerate:
  "split_cached use_cache cache (enumerate n batch) =
     (map (\<lambda>t. the (if use_cache then cache t else None))
        (filter (\<lambda>t. (if use_cache then cache t else None) \<noteq> None) batch),
      filter (\<lambda>t. (if use_cache then cache t else None) = None) batch,
      map fst (filter (\<lambda>(i, t). (if use_cache then cache t else None) = None)
                 (enumerate n batch)))"
  by (induction batch arbitrary: n) (auto split: option.splits)

lemma uncached_index_iff:
  "i \<in> set (map fst (filter (\<lambda>(i, t). P t) (enumerate 0 batch)))
     \<longleftrightarrow> i < length batch \<and> P (batch ! i)"
  by (auto simp: in_set_enumerate_eq image_iff)

lemma nth_filter_count:
  assumes "n < length xs" and "P (xs ! n)"
  shows "filter P xs ! length (filter P (take n xs)) = xs ! n"
proof -
  have "xs = take n xs @ xs ! n # drop (Suc n) xs"
    using assms(1) by (simp add: id_take_nth_drop)
  then have "filter P xs = filter P (take n xs) @ xs ! n # filter P (drop (Suc n) xs)"
    using assms(2) by (metis filter.simps(2) filter_append)
  then show ?thesis by (simp add: nth_append)
qed

lemma count_take_Suc:
  "n < length xs \<Longrightarrow>
     length (filter P (take (Suc n) xs)) =
       length (filter P (take n xs)) + (if P (xs ! n) then 1 else 0)"
  by (simp add: take_Suc_conv_app_nth)

lemma count_take_le:
  "length (filter P (take n xs)) \<le> length (filter P xs)"
proof -
  have "filter P xs = filter P (take n xs) @ filter P (drop n xs)"
    by (metis append_take_drop_id filter_append)
  then show ?thesis by simp
qed

lemma count_take_less:
  assumes "n < length xs" and "P (xs ! n)"
  shows "length (filter P (take n xs)) < length (filter P xs)"
  using count_take_le [of P "Suc n" xs] count_take_Suc [OF assms(1), of P] assms(2) by simp

lemma reconstruct_positions:
  fixes lookup :: "string \<Rightarrow> vec option"
  assumes ui: "\<And>i. i \<in> set uncached_indices \<longleftrightarrow> i < length batch \<and> lookup (batch ! i) = None"
    and be: "length (filter (\<lambda>t. lookup t = None) batch) \<le> length batch_embeddings"
    and cached: "cached = map (\<lambda>t. the (lookup t)) (filter (\<lambda>t. lookup t \<noteq> None) batch)"
    and "k = m - n" and "n \<le> m" and "m \<le> length batch"
  shows "reconstruct uncached_indices batch_embeddings cached [n..<m]
           (length (filter (\<lambda>t. lookup t = None) (take n batch)))
           (length (filter (\<lambda>t. lookup t \<noteq> None) (take n batch)))
         = Inr (map (\<lambda>i. case lookup (batch ! i) of
                           Some embedding \<Rightarrow> embedding
                         | None \<Rightarrow> batch_embeddings !
                              length (filter (\<lambda>t. lookup t = None) (take i batch)))
                  [n..<m])"
  using assms(4-6)
proof (induction k arbitrary: n)
  case 0
  then show ?case by simp
next
  case (Suc k)
  then have n: "n < m" "n < length batch" and k: "k = m - Suc n" "Suc n \<le> m"
    by auto
  have upt: "[n..<m] = n # [Suc n..<m]"
    using n(1) by (simp add: upt_conv_Cons)
  note IH = Suc.IH [OF k Suc.prems(3)]
  show ?case
  proof (cases "lookup (batch ! n)")
    case None
    have mem: "n \<in> set uncached_indices"
      using ui n(2) None by simp
    have lt: "length (filter (\<lambda>t. lookup t = None) (take n batch)) < length batch_embeddings"
      using count_take_less [OF n(2), of "\<lambda>t. lookup t = None"] None be by simp
    have c1: "length (filter (\<lambda>t. lookup t = None) (take (Suc n) batch))
                = Suc (length (filter (\<lambda>t. lookup t = None) (take n batch)))"
      using count_take_Suc [OF n(2), of "\<lambda>t. lookup t = None"] None by simp
    have c2: "length (filter (\<lambda>t. lookup t \<noteq> None) (take (Suc n) batch))
                = length (filter (\<lambda>t. lookup t \<noteq> None) (take n batch))"
      using count_take_Suc [OF n(2), of "\<lambda>t. lookup t \<noteq> None"] None by simp
    show ?thesis
      unfolding upt using mem lt IH [unfolded c1 c2] by (simp add: None)
  next
    case (Some v)
    have mem: "n \<notin> set uncached_indices"
      using ui Some by simp
    have lt: "length (filter (\<lambda>t. lookup t \<noteq> None) (take n batch)) < length cached"
      using count_take_less [OF n(2), of "\<lambda>t. lookup t \<noteq> None"] Some
      by (simp add: cached)
    have val: "cached ! length (filter (\<lambda>t. lookup t \<noteq> None) (take n batch)) = v"
    proof -
      have "filter (\<lambda>t. lookup t \<noteq> None) batch
              ! length (filter (\<lambda>t. lookup t \<noteq> None) (take n batch)) = batch ! n"
        using nth_filter_count [OF n(2), of "\<lambda>t. lookup t \<noteq> None"] Some by simp
      then show ?thesis
        using lt Some by (simp add: cached)
    qed
    have c1: "length (filter (\<lambda>t. lookup t = None) (take (Suc n) batch))
                = length (filter (\<lambda>t. lookup t = None) (take n batch))"
      using count_take_Suc [OF n(2), of "\<lambda>t. lookup t = None"] Some by simp
    have c2: "length (filter (\<lambda>t. lookup t \<noteq> None) (take (Suc n) batch))
                = Suc (length (filter (\<lambda>t. lookup t \<noteq> None) (take n batch)))"
      using count_take_Suc [OF n(2), of "\<lambda>t. lookup t \<noteq> None"] Some by simp
    show ?thesis
      unfolding upt using mem lt IH [unfolded c1 c2] val by (simp add: Some)
  qed
qed


lemma split_cached_lookup:
  "split_cached use_cache (eg_embedding_cache gen) (enumerate 0 batch) =
     (map (\<lambda>t. the (cached_vector use_cache gen t))
        (filter (\<lambda>t. cached_vector use_cache gen t \<noteq> None) batch),
      filter (\<lambda>t. cached_vector use_cache gen t = None) batch,
      map fst (filter (\<lambda>(i, t). cached_vector use_cache gen t = None) (enumerate 0 batch)))"
  unfolding cached_vector_def by (rule split_cached_enumerate)

lemma reconstruct_batch:
  fixes gen :: "'p embedding_generator"
  assumes "length (filter (\<lambda>t. cached_vector use_cache gen t = None) batch)
             \<le> length batch_embeddings"
  shows "reconstruct
           (map fst (filter (\<lambda>(i, t). cached_vector use_cache gen t = None) (enumerate 0 batch)))
           batch_embeddings
           (map (\<lambda>t. the (cached_vector use_cache gen t))
              (filter (\<lambda>t. cached_vector use_cache gen t \<noteq> None) batch))
           [0..<length batch] 0 0
         = Inr (map (\<lambda>i. case cached_vector use_cache gen (batch ! i) of
                           Some embedding \<Rightarrow> embedding
                         | None \<Rightarrow> batch_embeddings !
                              length (filter (\<lambda>t. cached_vector use_cache gen t = None)
                                        (take i batch)))
                  [0..<length batch])"
  using reconstruct_positions
    [where lookup = "cached_vector use_cache gen" and batch = batch and n = 0
       and m = "length batch" and k = "length batch"
       and batch_embeddings = batch_embeddings
       and uncached_indices =
         "map fst (filter (\<lambda>(i, t). cached_vector use_cache gen t = None) (enumerate 0 batch))"
       and cached = "map (\<lambda>t. the (cached_vector use_cache gen t))
              (filter (\<lambda>t. cached_vector use_cache gen t \<noteq> None) batch)"]
    assms uncached_index_iff [of _ "\<lambda>t. cached_vector use_cache gen t = None" batch]
  by simp

lemma process_batch_vectors:
  assumes "provider_contract api"
  shows "\<exists>gen'. process_batch api use_cache gen batch =
                  Inr (sub_batch_vectors api use_cache gen batch, gen')"
proof -
  let ?unc = "filter (\<lambda>t. cached_vector use_cache gen t = None) batch"
  show ?thesis
  proof (cases "?unc = []")
    case True
    then have all: "\<And>i. i < length batch \<Longrightarrow> cached_vector use_cache gen (batch ! i) \<noteq> None"
      by (auto simp: filter_empty_conv)
    have "reconstruct
           (map fst (filter (\<lambda>(i, t). cached_vector use_cache gen t = None) (enumerate 0 batch)))
           []
           (map (\<lambda>t. the (cached_vector use_cache gen t))
              (filter (\<lambda>t. cached_vector use_cache gen t \<noteq> None) batch))
           [0..<length batch] 0 0
         = Inr (map (\<lambda>i. case cached_vector use_cache gen (batch ! i) of
                           Some embedding \<Rightarrow> embedding
                         | None \<Rightarrow> [] !
                              length (filter (\<lambda>t. cached_vector use_cache gen t = None)
                                        (take i batch)))
                  [0..<length batch])"
      by (rule reconstruct_batch) (simp add: True)
    moreover have "map (\<lambda>i. case cached_vector use_cache gen (batch ! i) of
                           Some embedding \<Rightarrow> embedding
                         | None \<Rightarrow> [] !
                              length (filter (\<lambda>t. cached_vector use_cache gen t = None)
                                        (take i batch)))
                  [0..<length batch] = sub_batch_vectors api use_cache gen batch"
      unfolding sub_batch_vectors_def Let_def
    proof (rule map_cong [OF refl])
      fix i
      assume "i \<in> set [0..<length batch]"
      then obtain v where "cached_vector use_cache gen (batch ! i) = Some v"
        using all [of i] by auto
      then show "(case cached_vector use_cache gen (batch ! i) of
                           Some embedding \<Rightarrow> embedding
                         | None \<Rightarrow> [] !
                              length (filter (\<lambda>t. cached_vector use_cache gen t = None)
                                        (take i batch)))
         = (case cached_vector use_cache gen (batch ! i) of
                     Some embedding \<Rightarrow> embedding
                   | None \<Rightarrow>
                       (case fst (embed_documents api (embeddings gen)
                          (filter (\<lambda>text. cached_vector use_cache gen text = None) batch)) of
               Inr batch_embeddings \<Rightarrow> batch_embeddings
             | Inl e \<Rightarrow> replicate (length (filter (\<lambda>text. cached_vector use_cache gen text = None) batch)) zero_vector) ! length (filter (\<lambda>text. cached_vector use_cache gen text = None)
                                           (take i batch)))"
        by simp
    qed
    ultimately show ?thesis
      by (simp add: process_batch_def split_cached_lookup True)
  next
    case False
    obtain r p where call: "embed_documents api (embeddings gen) ?unc = (r, p)"
      by (cases "embed_documents api (embeddings gen) ?unc")
    show ?thesis
    proof (cases r)
      case (Inl e)
      have "reconstruct
           (map fst (filter (\<lambda>(i, t). cached_vector use_cache gen t = None) (enumerate 0 batch)))
           (replicate (length ?unc) zero_vector)
           (map (\<lambda>t. the (cached_vector use_cache gen t))
              (filter (\<lambda>t. cached_vector use_cache gen t \<noteq> None) batch))
           [0..<length batch] 0 0
         = Inr (map (\<lambda>i. case cached_vector use_cache gen (batch ! i) of
                           Some embedding \<Rightarrow> embedding
                         | None \<Rightarrow> replicate (length ?unc) zero_vector !
                              length (filter (\<lambda>t. cached_vector use_cache gen t = None)
                                        (take i batch)))
                  [0..<length batch])"
        by (rule reconstruct_batch) simp
      moreover have "fst (embed_documents api (embeddings gen) ?unc) = Inl e"
        using call Inl by simp
      ultimately show ?thesis
        using False call Inl
        by (simp add: process_batch_def split_cached_lookup sub_batch_vectors_def Let_def
              cong: option.case_cong)
    next
      case (Inr es)
      have "length es = length ?unc"
        using assms call Inr
        by (auto simp: provider_contract_def dest!: spec [of _ "embeddings gen"] spec [of _ ?unc])
      then have "reconstruct
           (map fst (filter (\<lambda>(i, t). cached_vector use_cache gen t = None) (enumerate 0 batch)))
           es
           (map (\<lambda>t. the (cached_vector use_cache gen t))
              (filter (\<lambda>t. cached_vector use_cache gen t \<noteq> None) batch))
           [0..<length batch] 0 0
         = Inr (map (\<lambda>i. case cached_vector use_cache gen (batch ! i) of
                           Some embedding \<Rightarrow> embedding
                         | None \<Rightarrow> es !
                              length (filter (\<lambda>t. cached_vector use_cache gen t = None)
                                        (take i batch)))
                  [0..<length batch])"
        by (intro reconstruct_batch) simp
      moreover have "fst (embed_documents api (embeddings gen) ?unc) = Inr es"
        using call Inr by simp
      ultimately show ?thesis
        using False call Inr
        by (simp add: process_batch_def split_cached_lookup sub_batch_vectors_def Let_def
              cong: option.case_cong)
    qed
  qed
qed

lemma length_sub_batch_vectors:
  "length (sub_batch_vectors api use_cache gen batch) = length batch"
  by (simp add: sub_batch_vectors_def Let_def)


declare embed_batches.simps [simp del]

lemma embed_batches_Nil: "embed_batches api use_cache batch_size gen [] = Inr ([], gen)"
  by (subst embed_batches.simps) simp

lemma embed_batches_step:
  assumes "texts \<noteq> []" and "0 < batch_size"
  shows "embed_batches api use_cache batch_size gen texts =
     (case process_batch api use_cache gen (take batch_size texts) of
        Inl e \<Rightarrow> Inl e
      | Inr (batch_results, gen') \<Rightarrow>
          (case embed_batches api use_cache batch_size gen' (drop batch_size texts) of
             Inl e \<Rightarrow> Inl e
           | Inr (results, gen'') \<Rightarrow> Inr (batch_results @ results, gen'')))"
  using assms by (subst embed_batches.simps) simp

lemma embed_batches_total:
  assumes "provider_contract api" and "0 < batch_size"
  shows "\<exists>vs gen'. embed_batches api use_cache batch_size gen texts = Inr (vs, gen')
                   \<and> length vs = length texts"
proof (induction texts arbitrary: gen rule: length_induct)
  case (1 texts)
  show ?case
  proof (cases "texts = []")
    case True
    then show ?thesis by (simp add: embed_batches_Nil)
  next
    case False
    obtain g1 where pb: "process_batch api use_cache gen (take batch_size texts) =
        Inr (sub_batch_vectors api use_cache gen (take batch_size texts), g1)"
      using process_batch_vectors [OF assms(1)] by blast
    have "length (drop batch_size texts) < length texts"
      using False assms(2) by simp
    then obtain ws g2 where
      rest: "embed_batches api use_cache batch_size g1 (drop batch_size texts) = Inr (ws, g2)"
      and len: "length ws = length (drop batch_size texts)"
      using 1 by blast
    show ?thesis
      using pb rest len
      by (simp add: embed_batches_step [OF False assms(2)] length_sub_batch_vectors)
  qed
qed

lemma embed_batches_prefix:
  assumes "provider_contract api" and "0 < batch_size"
    and "embed_batches api use_cache batch_size gen texts = Inr (vs, gen')"
  shows "\<exists>vs_b gen_b ws.
           embed_batches api use_cache batch_size gen (take (b * batch_size) texts)
             = Inr (vs_b, gen_b)
           \<and> embed_batches api use_cache batch_size gen_b (drop (b * batch_size) texts)
             = Inr (ws, gen')
           \<and> vs = vs_b @ ws"
  using assms(3)
proof (induction b arbitrary: gen texts vs)
  case 0
  then show ?case by (simp add: embed_batches_Nil)
next
  case (Suc b)
  show ?case
  proof (cases "texts = []")
    case True
    then show ?thesis
      using Suc.prems by (simp add: embed_batches_Nil)
  next
    case False
    obtain v1 g1 where pb: "process_batch api use_cache gen (take batch_size texts) = Inr (v1, g1)"
      using process_batch_vectors [OF assms(1)] by blast
    then obtain w1 where
      rest: "embed_batches api use_cache batch_size g1 (drop batch_size texts) = Inr (w1, gen')"
      and vs: "vs = v1 @ w1"
      using Suc.prems by (auto simp: embed_batches_step [OF False assms(2)] split: sum.splits)
    obtain vs_b gen_b ws where
      a: "embed_batches api use_cache batch_size g1
            (take (b * batch_size) (drop batch_size texts)) = Inr (vs_b, gen_b)"
      and b: "embed_batches api use_cache batch_size gen_b
            (drop (b * batch_size) (drop batch_size texts)) = Inr (ws, gen')"
      and c: "w1 = vs_b @ ws"
      using Suc.IH [OF rest] by blast
    have ne: "take (Suc b * batch_size) texts \<noteq> []"
      using False assms(2) by simp
    have t1: "take batch_size (take (Suc b * batch_size) texts) = take batch_size texts"
      by (simp add: min_def)
    have t2: "drop batch_size (take (Suc b * batch_size) texts)
                = take (b * batch_size) (drop batch_size texts)"
      by (simp add: drop_take)
    have "embed_batches api use_cache batch_size gen (take (Suc b * batch_size) texts)
            = Inr (v1 @ vs_b, gen_b)"
      unfolding embed_batches_step [OF ne assms(2)] t1 t2 by (simp add: pb a)
    moreover have "drop (Suc b * batch_size) texts
                     = drop (b * batch_size) (drop batch_size texts)"
      by (simp add: add.commute)
    ultimately show ?thesis
      using b c vs by simp
  qed
qed

lemma embed_batches_sub_batch:
  assumes "provider_contract api" and "0 < batch_size"
    and "embed_batches api use_cache batch_size gen texts = Inr (vs, gen')"
    and "b * batch_size < length texts"
  shows "\<exists>vs_b gen_b.
           embed_batches api use_cache batch_size gen (take (b * batch_size) texts)
             = Inr (vs_b, gen_b)
           \<and> take batch_size (drop (b * batch_size) vs)
             = sub_batch_vectors api use_cache gen_b
                 (take batch_size (drop (b * batch_size) texts))"
proof -
  let ?rest = "drop (b * batch_size) texts"
  obtain vs_b gen_b ws where
    a: "embed_batches api use_cache batch_size gen (take (b * batch_size) texts)
          = Inr (vs_b, gen_b)"
    and r: "embed_batches api use_cache batch_size gen_b ?rest = Inr (ws, gen')"
    and vs: "vs = vs_b @ ws"
    using embed_batches_prefix [OF assms(1-3)] by blast
  have len: "length vs_b = b * batch_size"
    using embed_batches_total [OF assms(1,2), of use_cache gen "take (b * batch_size) texts"]
      a assms(4) by simp
  have ne: "?rest \<noteq> []"
    using assms(4) by simp
  obtain g1 where pb: "process_batch api use_cache gen_b (take batch_size ?rest) =
      Inr (sub_batch_vectors api use_cache gen_b (take batch_size ?rest), g1)"
    using process_batch_vectors [OF assms(1)] by blast
  obtain w1 g2 where
    tail: "embed_batches api use_cache batch_size g1 (drop batch_size ?rest) = Inr (w1, g2)"
    and lw: "length w1 = length (drop batch_size ?rest)"
    using embed_batches_total [OF assms(1,2)] by blast
  have ws: "ws = sub_batch_vectors api use_cache gen_b (take batch_size ?rest) @ w1"
    using r pb tail by (simp add: embed_batches_step [OF ne assms(2)])
  have "take batch_size ws = sub_batch_vectors api use_cache gen_b (take batch_size ?rest)"
  proof (cases "batch_size \<le> length ?rest")
    case True
    then show ?thesis
      by (simp add: ws length_sub_batch_vectors min_def)
  next
    case False
    then have "w1 = []"
      using lw by simp
    then show ?thesis
      using False by (simp add: ws length_sub_batch_vectors)
  qed
  then show ?thesis
    using a len by (auto simp: vs)
qed


lemma sub_batch_vectors_failure:
  assumes "fst (embed_documents api (embeddings gen)
                  (filter (\<lambda>t. cached_vector use_cache gen t = None) batch)) = Inl e"
  shows "sub_batch_vectors api use_cache gen batch =
           map (\<lambda>t. case cached_vector use_cache gen t of
                       Some embedding \<Rightarrow> embedding
                     | None \<Rightarrow> zero_vector) batch"
proof (rule nth_equalityI)
  show "length (sub_batch_vectors api use_cache gen batch) =
          length (map (\<lambda>t. case cached_vector use_cache gen t of
                       Some embedding \<Rightarrow> embedding
                     | None \<Rightarrow> zero_vector) batch)"
    by (simp add: length_sub_batch_vectors)
next
  fix i
  assume "i < length (sub_batch_vectors api use_cache gen batch)"
  then have i: "i < length batch"
    by (simp add: length_sub_batch_vectors)
  show "sub_batch_vectors api use_cache gen batch ! i =
          map (\<lambda>t. case cached_vector use_cache gen t of
                       Some embedding \<Rightarrow> embedding
                     | None \<Rightarrow> zero_vector) batch ! i"
  proof (cases "cached_vector use_cache gen (batch ! i)")
    case None
    have "length (filter (\<lambda>t. cached_vector use_cache gen t = None) (take i batch))
            < length (filter (\<lambda>t. cached_vector use_cache gen t = None) batch)"
      using count_take_less [OF i, of "\<lambda>t. cached_vector use_cache gen t = None"] None
      by simp
    then show ?thesis
      using i None assms by (simp add: sub_batch_vectors_def Let_def)
  next
    case (Some v)
    then show ?thesis
      using i by (simp add: sub_batch_vectors_def Let_def)
  qed
qed

lemma sub_batch_vectors_pointwise:
  assumes "fst (embed_documents api (embeddings gen)
                  (filter (\<lambda>t. cached_vector use_cache gen t = None) batch))
             = Inr (map f (filter (\<lambda>t. cached_vector use_cache gen t = None) batch))"
  shows "sub_batch_vectors api use_cache gen batch =
           map (\<lambda>t. case cached_vector use_cache gen t of
                       Some embedding \<Rightarrow> embedding
                     | None \<Rightarrow> f t) batch"
proof (rule nth_equalityI)
  show "length (sub_batch_vectors api use_cache gen batch) =
          length (map (\<lambda>t. case cached_vector use_cache gen t of
                       Some embedding \<Rightarrow> embedding
                     | None \<Rightarrow> f t) batch)"
    by (simp add: length_sub_batch_vectors)
next
  fix i
  assume "i < length (sub_batch_vectors api use_cache gen batch)"
  then have i: "i < length batch"
    by (simp add: length_sub_batch_vectors)
  show "sub_batch_vectors api use_cache gen batch ! i =
          map (\<lambda>t. case cached_vector use_cache gen t of
                       Some embedding \<Rightarrow> embedding
                     | None \<Rightarrow> f t) batch ! i"
  proof (cases "cached_vector use_cache gen (batch ! i)")
    case None
    have lt: "length (filter (\<lambda>t. cached_vector use_cache gen t = None) (take i batch))
            < length (filter (\<lambda>t. cached_vector use_cache gen t = None) batch)"
      using count_take_less [OF i, of "\<lambda>t. cached_vector use_cache gen t = None"] None
      by simp
    have "filter (\<lambda>t. cached_vector use_cache gen t = None) batch
            ! length (filter (\<lambda>t. cached_vector use_cache gen t = None) (take i batch))
          = batch ! i"
      using nth_filter_count [OF i, of "\<lambda>t. cached_vector use_cache gen t = None"] None
      by simp
    then show ?thesis
      using i None assms lt by (simp add: sub_batch_vectors_def Let_def)
  next
    case (Some v)
    then show ?thesis
      using i by (simp add: sub_batch_vectors_def Let_def)
  qed
qed

text \<open>
  C7. With a positive \<open>batch_size\<close> and a provider that answers with one vector per
  text whenever it answers, \<open>generate_embeddings_batch\<close> returns, for every list of
  texts, every generator state and either value of \<open>use_cache\<close>: no exception leaves
  it, and the list of vectors has the length of the list of texts. The output follows
  the input order sub-batch by sub-batch: the slice of the output for sub-batch \<open>b\<close>
  is \<open>sub_batch_vectors\<close> of the matching slice of the texts, in the state the
  generator has after the sub-batches before it. If the provider's call for that
  sub-batch fails, each of its texts gets its cached vector if it has one and 768 zeros
  otherwise; if the call answers text by text with a function \<open>f\<close>, each text gets
  its cached vector or \<open>f\<close> of the text.
\<close>

theorem generate_embeddings_batch_total_in_order:
  assumes "provider_contract api" and "0 < batch_size"
  shows "\<exists>vs gen'.
           generate_embeddings_batch api gen texts use_cache batch_size = Inr (vs, gen')
           \<and> length vs = length texts
           \<and> (\<forall>b. b * nat batch_size < length texts \<longrightarrow>
                (\<exists>vs_b gen_b.
                   generate_embeddings_batch api gen (take (b * nat batch_size) texts)
                     use_cache batch_size = Inr (vs_b, gen_b)
                   \<and> (let batch = take (nat batch_size) (drop (b * nat batch_size) texts);
                           uncached = filter (\<lambda>t. cached_vector use_cache gen_b t = None) batch;
                           answer = fst (embed_documents api (embeddings gen_b) uncached);
                           vs_batch = take (nat batch_size) (drop (b * nat batch_size) vs)
                       in vs_batch = sub_batch_vectors api use_cache gen_b batch
                          \<and> (\<forall>e. answer = Inl e \<longrightarrow>
                                vs_batch =
                                  map (\<lambda>t. case cached_vector use_cache gen_b t of
                                              Some embedding \<Rightarrow> embedding
                                            | None \<Rightarrow> replicate 768 0) batch)
                          \<and> (\<forall>f. answer = Inr (map f uncached) \<longrightarrow>
                                vs_batch =
                                  map (\<lambda>t. case cached_vector use_cache gen_b t of
                                              Some embedding \<Rightarrow> embedding
                                            | None \<Rightarrow> f t) batch))))"
proof -
  have bs: "0 < nat batch_size" "batch_size \<noteq> 0" "\<not> batch_size < 0"
    using assms(2) by auto
  obtain vs gen' where
    run: "embed_batches api use_cache (nat batch_size) gen texts = Inr (vs, gen')"
    and len: "length vs = length texts"
    using embed_batches_total [OF assms(1) bs(1)] by blast
  have "\<exists>vs_b gen_b.
          generate_embeddings_batch api gen (take (b * nat batch_size) texts)
            use_cache batch_size = Inr (vs_b, gen_b)
          \<and> (let batch = take (nat batch_size) (drop (b * nat batch_size) texts);
                  uncached = filter (\<lambda>t. cached_vector use_cache gen_b t = None) batch;
                  answer = fst (embed_documents api (embeddings gen_b) uncached);
                  vs_batch = take (nat batch_size) (drop (b * nat batch_size) vs)
              in vs_batch = sub_batch_vectors api use_cache gen_b batch
                 \<and> (\<forall>e. answer = Inl e \<longrightarrow>
                       vs_batch =
                         map (\<lambda>t. case cached_vector use_cache gen_b t of
                                     Some embedding \<Rightarrow> embedding
                                   | None \<Rightarrow> replicate 768 0) batch)
                 \<and> (\<forall>f. answer = Inr (map f uncached) \<longrightarrow>
                       vs_batch =
                         map (\<lambda>t. case cached_vector use_cache gen_b t of
                                     Some embedding \<Rightarrow> embedding
                                   | None \<Rightarrow> f t) batch))"
    if b: "b * nat batch_size < length texts" for b
  proof -
    obtain vs_b gen_b where
      pre: "embed_batches api use_cache (nat batch_size) gen (take (b * nat batch_size) texts)
              = Inr (vs_b, gen_b)"
      and sub: "take (nat batch_size) (drop (b * nat batch_size) vs)
              = sub_batch_vectors api use_cache gen_b
                  (take (nat batch_size) (drop (b * nat batch_size) texts))"
      using embed_batches_sub_batch [OF assms(1) bs(1) run b] by blast
    have "generate_embeddings_batch api gen (take (b * nat batch_size) texts)
            use_cache batch_size = Inr (vs_b, gen_b)"
      using pre by (simp add: generate_embeddings_batch_def bs)
    then show ?thesis
      unfolding Let_def sub
      using sub_batch_vectors_failure
              [of api gen_b use_cache "take (nat batch_size) (drop (b * nat batch_size) texts)"]
        sub_batch_vectors_pointwise
              [of api gen_b use_cache "take (nat batch_size) (drop (b * nat batch_size) texts)"]
      by (auto simp: zero_vector_def cong: option.case_cong)
  qed
  then show ?thesis
    using run len by (simp add: generate_embeddings_batch_def bs)
qed

lemma flaky_provider_contract: "provider_contract flaky_provider"
  by (simp add: provider_contract_def flaky_provider_def)

lemma run_flaky:
  "(case generate_embeddings_batch flaky_provider one_cached [''aa'', ''b'', ''ccc''] True 2 of
      Inr (vs, g) \<Rightarrow> vs = [[2], [9], replicate 768 0] \<and> embeddings g = 2
                     \<and> eg_embedding_cache g ''aa'' = Some [2]
                     \<and> eg_embedding_cache g ''ccc'' = None
    | Inl e \<Rightarrow> False)"
  by (simp add: generate_embeddings_batch_def embed_batches_step embed_batches_Nil
        process_batch_def flaky_provider_def one_cached_def zero_vector_def)


theorem generate_embeddings_batch_total_in_order_witness:
  "provider_contract flaky_provider
   \<and> (case generate_embeddings_batch flaky_provider one_cached [''aa'', ''b'', ''ccc''] True 2 of
        Inr (vs, g) \<Rightarrow> length vs = length [''aa'', ''b'', ''ccc'']
                       \<and> vs = [[2], [9], replicate 768 0]
      | Inl e \<Rightarrow> False)"
proof -
  have two: "(0::int) < 2" by simp
  obtain vs g where
    run: "generate_embeddings_batch flaky_provider one_cached [''aa'', ''b'', ''ccc''] True 2
            = Inr (vs, g)"
    and len: "length vs = length [''aa'', ''b'', ''ccc'']"
    using generate_embeddings_batch_total_in_order
            [OF flaky_provider_contract two, of one_cached "[''aa'', ''b'', ''ccc'']" True]
    by blast
  have "vs = [[2], [9], replicate 768 0]"
    using run_flaky by (simp add: run)
  then show ?thesis
    using run len flaky_provider_contract by simp
qed

end
